theory Spec2Isabelle
  imports Main
begin

section \<open>Data model\<close>

text \<open>
  The search engine of \<^verbatim>\<open>players.py\<close> (class \<^verbatim>\<open>AI\<close>): a mark is one of the two strings
  \<^verbatim>\<open>'X'\<close> (the minimizer) and \<^verbatim>\<open>'O'\<close> (the maximizer); a move is the tuple
  \<^verbatim>\<open>(tile_x, tile_y, mark)\<close>; a candidate is the tuple \<^verbatim>\<open>((score_X, score_O), move)\<close>.
\<close>

datatype mark = Mark_X | Mark_O

type_synonym move = "nat \<times> nat \<times> mark"

type_synonym cand = "(int \<times> int) \<times> move"

text \<open>
  Position scores are Python numbers together with \<^verbatim>\<open>float('inf')\<close> and
  \<^verbatim>\<open>float('-inf')\<close>; they are only ever compared. (NaN is not modelled.)
\<close>

datatype score = NegInf | Fin int | PosInf

instantiation score :: linorder
begin

definition less_eq_score :: "score \<Rightarrow> score \<Rightarrow> bool" where
  "a \<le> b =
     (case a of
        NegInf \<Rightarrow> True
      | Fin i \<Rightarrow> (case b of NegInf \<Rightarrow> False | Fin j \<Rightarrow> i \<le> j | PosInf \<Rightarrow> True)
      | PosInf \<Rightarrow> (case b of PosInf \<Rightarrow> True | _ \<Rightarrow> False))"

definition less_score :: "score \<Rightarrow> score \<Rightarrow> bool" where
  "a < b = (a \<le> b \<and> \<not> b \<le> (a::score))"

instance
proof
  fix x y z :: score
  show "(x < y) = (x \<le> y \<and> \<not> y \<le> x)"
    by (simp add: less_score_def)
  show "x \<le> x"
    by (cases x) (simp_all add: less_eq_score_def)
  show "x \<le> y \<Longrightarrow> y \<le> z \<Longrightarrow> x \<le> z"
    by (cases x; cases y; cases z) (simp_all add: less_eq_score_def)
  show "x \<le> y \<Longrightarrow> y \<le> x \<Longrightarrow> x = y"
    by (cases x; cases y) (simp_all add: less_eq_score_def)
  show "x \<le> y \<or> y \<le> x"
    by (cases x; cases y) (auto simp add: less_eq_score_def)
qed

end

text \<open>
  The exceptions the search can end in: \<^verbatim>\<open>max\<close>/\<^verbatim>\<open>min\<close> over an empty list of choices
  (\<^verbatim>\<open>ValueError\<close>), and the interpreter's bound on the depth of the call stack
  (\<^verbatim>\<open>RecursionError\<close>).
\<close>

datatype error = ValueError | RecursionError

text \<open>
  The class \<^verbatim>\<open>Board\<close> (module \<^verbatim>\<open>board\<close>) is imported by \<^verbatim>\<open>players.py\<close> and is not part of
  the sources at hand. The search uses it through the attributes and methods below, which
  are taken as parameters: \<open>'b\<close> is the board's state, \<open>'t\<close> a tile, \<open>'u\<close> the previous state of
  a cell as recorded by \<^verbatim>\<open>update_board\<close>.
  \<^item> \<open>tiles b\<close>: \<^verbatim>\<open>board.tiles\<close>, a list of rows;
  \<^item> \<open>check_legal b move\<close>: \<^verbatim>\<open>board.check_legal(move)\<close>;
  \<^item> \<open>get_value_mark b tile_y tile_x m\<close>: \<^verbatim>\<open>board.logic[tile_y][tile_x].get_value_mark(m)\<close>;
  \<^item> \<open>update_board b move\<close>: \<^verbatim>\<open>board.update_board(move, graphic=False)\<close>, the mutated board
    and the returned \<^verbatim>\<open>orig_states\<close>, a list of \<^verbatim>\<open>((tile_x, tile_y), previous_state)\<close>;
  \<^item> \<open>undo_change b orig_states move\<close>: \<^verbatim>\<open>board.undo_change(orig_states, move)\<close>;
  \<^item> \<open>check_win b move\<close>: \<^verbatim>\<open>board.check_win(move)[0]\<close>;
  \<^item> \<open>score_board b\<close>: \<^verbatim>\<open>Board.score_board(board)\<close>.
  The three queries and \<^verbatim>\<open>score_board\<close> are taken to read the board only.
\<close>

record ('b, 't, 'u) board_ops =
  tiles :: "'b \<Rightarrow> 't list list"
  check_legal :: "'b \<Rightarrow> move \<Rightarrow> bool"
  get_value_mark :: "'b \<Rightarrow> nat \<Rightarrow> nat \<Rightarrow> mark \<Rightarrow> int"
  update_board :: "'b \<Rightarrow> move \<Rightarrow> 'b \<times> ((nat \<times> nat) \<times> 'u) list"
  undo_change :: "'b \<Rightarrow> ((nat \<times> nat) \<times> 'u) list \<Rightarrow> move \<Rightarrow> 'b"
  check_win :: "'b \<Rightarrow> move \<Rightarrow> bool"
  score_board :: "'b \<Rightarrow> score"

text \<open>
  What a search mutates: the board, and the counter \<^verbatim>\<open>self.minimax_stack_depth\<close> of the
  AI player.
\<close>

record 'b search_state =
  board :: 'b
  minimax_stack_depth :: nat

section \<open>Python list slicing\<close>

text \<open>\<^verbatim>\<open>xs[:k]\<close> and \<^verbatim>\<open>xs[k:]\<close> for an integer \<open>k\<close>: a negative \<open>k\<close> counts from the end.\<close>

definition slice_to :: "'a list \<Rightarrow> int \<Rightarrow> 'a list" where
  "slice_to xs k = (if k < 0 then take (nat (int (length xs) + k)) xs else take (nat k) xs)"

definition slice_from :: "'a list \<Rightarrow> int \<Rightarrow> 'a list" where
  "slice_from xs k = (if k < 0 then drop (nat (int (length xs) + k)) xs else drop (nat k) xs)"

section \<open>Move enumeration: \<^verbatim>\<open>AI.get_possible_moves\<close>\<close>

definition get_possible_moves ::
  "('b, 't, 'u) board_ops \<Rightarrow> 'b \<Rightarrow> bool \<Rightarrow> cand list \<times> cand list" where
  "get_possible_moves ops b maximizer =
     (let mark = (if maximizer then Mark_O else Mark_X);
          possible_moves =
            concat (map (\<lambda>tile_y.
              concat (map (\<lambda>tile_x.
                if check_legal ops b (tile_x, tile_y, mark) then
                  (let score_X = get_value_mark ops b tile_y tile_x Mark_X;
                       score_O = get_value_mark ops b tile_y tile_x Mark_O
                   in if score_X \<noteq> 0 \<or> score_O \<noteq> 0
                      then [((score_X, score_O), (tile_x, tile_y, mark))] else [])
                else [])
              [0 ..< length (tiles ops b ! tile_y)]))
            [0 ..< length (tiles ops b)]);
          x_fav = filter (\<lambda>move. fst (fst move) < 0) possible_moves;
          o_fav = filter (\<lambda>move. snd (fst move) > 0) possible_moves
      in (sort_key (\<lambda>x. fst (fst x)) x_fav, sort_key (\<lambda>c. snd (fst c)) o_fav))"

section \<open>The search: \<^verbatim>\<open>AI.minimax\<close>\<close>

text \<open>Lines 92 to 94: the two candidate lists are cut to the branch factor.\<close>

definition cap_moves :: "int \<Rightarrow> cand list \<times> cand list \<Rightarrow> cand list \<times> cand list" where
  "cap_moves branch_factor poss_moves =
     (slice_to (fst poss_moves) (branch_factor div 2),
      slice_from (snd poss_moves) ((- branch_factor) div 2))"

text \<open>Lines 97 to 100: the order in which the candidates are explored.\<close>

definition move_order :: "bool \<Rightarrow> cand list \<Rightarrow> cand list \<Rightarrow> cand list" where
  "move_order maximizer poss_x poss_o =
     (if maximizer then
        drop (length poss_o div 2) poss_o @ take (length poss_x div 2) poss_x
          @ take (length poss_o div 2) poss_o @ drop (length poss_o div 2) poss_x
      else
        take (length poss_x div 2) poss_x @ drop (length poss_o div 2) poss_o
          @ drop (length poss_x div 2) poss_x @ take (length poss_o div 2) poss_o)"

text \<open>
  Lines 119 to 130: the candidate lists for the next ply, from the cells that
  \<^verbatim>\<open>update_board\<close> reported and the lists of this ply. \<open>b\<close> is the board after the move.
\<close>

definition next_poss_moves ::
  "('b, 't, 'u) board_ops \<Rightarrow> 'b \<Rightarrow> move \<Rightarrow> ((nat \<times> nat) \<times> 'u) list
     \<Rightarrow> cand list \<Rightarrow> cand list \<Rightarrow> cand list \<times> cand list" where
  "next_poss_moves ops b move orig_states poss_x poss_o =
     (let mark = snd (snd move);
          nxt_mark = (if mark = Mark_X then Mark_O else Mark_X);
          new_poss_moves =
            map (\<lambda>((tile_x, tile_y), _).
                   ((get_value_mark ops b tile_y tile_x Mark_X, get_value_mark ops b tile_y tile_x Mark_O),
                    (tile_x, tile_y, nxt_mark)))
                orig_states;
          x_fav = filter (\<lambda>poss. fst (fst poss) < 0) new_poss_moves;
          o_fav = filter (\<lambda>poss. snd (fst poss) > 0) new_poss_moves;
          x_fav' = map (\<lambda>poss. (fst poss, (fst (snd poss), fst (snd (snd poss)), nxt_mark)))
                     (filter (\<lambda>poss. snd poss \<noteq> move)
                        (sort_key (\<lambda>x. fst (fst x)) (poss_x @ x_fav)));
          o_fav' = map (\<lambda>poss. (fst poss, (fst (snd poss), fst (snd (snd poss)), nxt_mark)))
                     (filter (\<lambda>poss. snd poss \<noteq> move)
                        (sort_key (\<lambda>c. snd (fst c)) (poss_o @ o_fav)))
      in (x_fav', o_fav'))"

text \<open>
  Lines 150 to 153: \<^verbatim>\<open>max(choices, key=lambda x: x[1])\<close> and \<^verbatim>\<open>min\<close>. Both return the first
  extremal entry and raise \<^verbatim>\<open>ValueError\<close> on an empty list.
\<close>

definition max_choice :: "(move \<times> score) list \<Rightarrow> error + move \<times> score" where
  "max_choice choices =
     (case choices of
        [] \<Rightarrow> Inl ValueError
      | c # cs \<Rightarrow> Inr (foldl (\<lambda>best c'. if snd c' > snd best then c' else best) c cs))"

definition min_choice :: "(move \<times> score) list \<Rightarrow> error + move \<times> score" where
  "min_choice choices =
     (case choices of
        [] \<Rightarrow> Inl ValueError
      | c # cs \<Rightarrow> Inr (foldl (\<lambda>best c'. if snd c' < snd best then c' else best) c cs))"

text \<open>
  Lines 138 to 147: the test that leaves the loop, and the two running bounds after a
  candidate that did not leave it. Lines 150 to 153: the choice returned.
\<close>

definition cutoff :: "bool \<Rightarrow> score \<Rightarrow> score \<Rightarrow> score \<Rightarrow> bool" where
  "cutoff maximizer nxt_ply_score max_worst min_worst =
     (if maximizer then nxt_ply_score > min_worst else nxt_ply_score < max_worst)"

definition new_max_worst :: "bool \<Rightarrow> score \<Rightarrow> score \<Rightarrow> score" where
  "new_max_worst maximizer nxt_ply_score max_worst =
     (if maximizer \<and> nxt_ply_score > max_worst then nxt_ply_score else max_worst)"

definition new_min_worst :: "bool \<Rightarrow> score \<Rightarrow> score \<Rightarrow> score" where
  "new_min_worst maximizer nxt_ply_score min_worst =
     (if \<not> maximizer \<and> nxt_ply_score < min_worst then nxt_ply_score else min_worst)"

definition best_choice :: "bool \<Rightarrow> (move \<times> score) list \<Rightarrow> error + move \<times> score" where
  "best_choice maximizer choices = (if maximizer then max_choice choices else min_choice choices)"

text \<open>
  \<^verbatim>\<open>minimax\<close> and its \<^verbatim>\<open>for\<close> loop. The first argument is the number of stack frames the
  interpreter still allows: a call made with none left raises \<^verbatim>\<open>RecursionError\<close>. An
  exception leaves the board as it is at that moment. The loop carries \<^verbatim>\<open>choices\<close>,
  \<^verbatim>\<open>max_worst\<close> and \<^verbatim>\<open>min_worst\<close>; the recursive call passes no \<^verbatim>\<open>branch_factor\<close>, so the
  callee runs with the default of the signature, 10. The default \<^verbatim>\<open>(None, None)\<close> of
  \<^verbatim>\<open>poss_moves\<close> cannot be sliced; every call in the sources passes the two lists.
\<close>

function (sequential) minimax ::
  "nat \<Rightarrow> ('b, 't, 'u) board_ops \<Rightarrow> 'b search_state \<Rightarrow> bool \<Rightarrow> int \<Rightarrow> int
     \<Rightarrow> cand list \<times> cand list \<Rightarrow> score \<Rightarrow> score
     \<Rightarrow> 'b search_state \<times> (error + move \<times> score)"
and minimax_loop ::
  "nat \<Rightarrow> ('b, 't, 'u) board_ops \<Rightarrow> 'b search_state \<Rightarrow> bool \<Rightarrow> int
     \<Rightarrow> cand list \<Rightarrow> cand list \<Rightarrow> cand list \<Rightarrow> (move \<times> score) list \<Rightarrow> score \<Rightarrow> score
     \<Rightarrow> 'b search_state \<times> (error + move \<times> score)"
where
  "minimax 0 ops st maximizer depth branch_factor poss_moves max_worst min_worst =
     (st, Inl RecursionError)"
| "minimax (Suc fuel) ops st maximizer depth branch_factor poss_moves max_worst min_worst =
     minimax_loop fuel ops st maximizer depth (fst (cap_moves branch_factor poss_moves))
       (snd (cap_moves branch_factor poss_moves))
       (move_order maximizer (fst (cap_moves branch_factor poss_moves))
          (snd (cap_moves branch_factor poss_moves)))
       [] max_worst min_worst"
| "minimax_loop fuel ops st maximizer depth poss_x poss_o [] choices max_worst min_worst =
     (st, best_choice maximizer choices)"
| "minimax_loop fuel ops st maximizer depth poss_x poss_o (cand # rest) choices
       max_worst min_worst =
     (let move = snd cand;
          st1 = st\<lparr>minimax_stack_depth := minimax_stack_depth st + 1\<rparr>;
          b1 = fst (update_board ops (board st1) move);
          orig_states = snd (update_board ops (board st1) move)
      in if check_win ops b1 move then
           (st1\<lparr>board := undo_change ops b1 orig_states move\<rparr>,
            Inr (move, if \<not> maximizer then NegInf else PosInf))
         else
           (case (if depth = 1 then (st1\<lparr>board := b1\<rparr>, Inr (move, score_board ops b1))
                  else minimax fuel ops (st1\<lparr>board := b1\<rparr>) (\<not> maximizer) (depth - 1) 10
                         (next_poss_moves ops b1 move orig_states poss_x poss_o)
                         max_worst min_worst) of
              (st2, Inl e) \<Rightarrow> (st2, Inl e)
            | (st2, Inr (_, nxt_ply_score)) \<Rightarrow>
                (let choices' = choices @ [(move, nxt_ply_score)];
                     st3 = st2\<lparr>board := undo_change ops (board st2) orig_states move\<rparr>
                 in if cutoff maximizer nxt_ply_score max_worst min_worst
                    then (st3, best_choice maximizer choices')
                    else minimax_loop fuel ops st3 maximizer depth poss_x poss_o rest choices'
                           (new_max_worst maximizer nxt_ply_score max_worst)
                           (new_min_worst maximizer nxt_ply_score min_worst))))"
  by pat_completeness auto

termination
  by (relation "inv_image (less_than <*lex*> less_than)
        (case_sum (\<lambda>(fuel, _). (2 * fuel, 0))
                  (\<lambda>(fuel, ops, st, maximizer, depth, poss_x, poss_o, poss, _).
                     (2 * fuel + 1, length poss)))") auto

section \<open>Top-level move selection: \<^verbatim>\<open>AI.get_move\<close>\<close>

text \<open>
  \<open>self_mark\<close> is \<^verbatim>\<open>self.mark\<close>. The counter is reset once the search has returned; an
  exception of the search passes through.
\<close>

definition get_move ::
  "nat \<Rightarrow> ('b, 't, 'u) board_ops \<Rightarrow> mark \<Rightarrow> 'b search_state \<Rightarrow> int \<Rightarrow> int
     \<Rightarrow> 'b search_state \<times> (error + move)" where
  "get_move fuel ops self_mark st depth branch_factor =
     (let maximizer = (self_mark = Mark_O);
          poss = get_possible_moves ops (board st) maximizer;
          poss_x = slice_to (fst poss) (branch_factor div 2);
          poss_o = slice_from (snd poss) ((- branch_factor) div 2)
      in case minimax fuel ops st maximizer depth branch_factor (poss_x, poss_o) NegInf PosInf of
           (st', Inl e) \<Rightarrow> (st', Inl e)
         | (st', Inr (move, _)) \<Rightarrow> (st'\<lparr>minimax_stack_depth := 0\<rparr>, Inr move))"

section \<open>One pass of the loop, in parts\<close>

text \<open>
  Names for the stages of one pass of the \<^verbatim>\<open>for\<close> loop, used to state properties of the loop:
  the state after lines 109 and 110 (the counter raised, the move applied), the state after
  \<^verbatim>\<open>undo_change\<close> (lines 112 and 136), and the value of the candidate (lines 115 to 133).
\<close>

definition played :: "('b, 't, 'u) board_ops \<Rightarrow> 'b search_state \<Rightarrow> move \<Rightarrow> 'b search_state" where
  "played ops st move =
     st\<lparr>minimax_stack_depth := minimax_stack_depth st + 1,
        board := fst (update_board ops (board st) move)\<rparr>"

definition unplayed ::
  "('b, 't, 'u) board_ops \<Rightarrow> 'b search_state \<Rightarrow> 'b search_state \<Rightarrow> move \<Rightarrow> 'b search_state" where
  "unplayed ops st st2 move =
     st2\<lparr>board := undo_change ops (board st2) (snd (update_board ops (board st) move)) move\<rparr>"

definition nxt_ply ::
  "nat \<Rightarrow> ('b, 't, 'u) board_ops \<Rightarrow> 'b search_state \<Rightarrow> bool \<Rightarrow> int \<Rightarrow> cand list \<Rightarrow> cand list
     \<Rightarrow> move \<Rightarrow> score \<Rightarrow> score \<Rightarrow> 'b search_state \<times> (error + move \<times> score)" where
  "nxt_ply fuel ops st maximizer depth poss_x poss_o move max_worst min_worst =
     (if depth = 1
      then (played ops st move, Inr (move, score_board ops (board (played ops st move))))
      else minimax fuel ops (played ops st move) (\<not> maximizer) (depth - 1) 10
             (next_poss_moves ops (board (played ops st move)) move
                (snd (update_board ops (board st) move)) poss_x poss_o)
             max_worst min_worst)"

section \<open>The search without the cutoff rule\<close>

text \<open>
  The exhaustive search the specification compares \<^verbatim>\<open>minimax\<close> with ("disabling the cutoff
  rule"): the same function with the two \<^verbatim>\<open>break\<close> statements of lines 139 to 140 and 144
  to 145 taken out. The bounds \<^verbatim>\<open>max_worst\<close> and \<^verbatim>\<open>min_worst\<close> feed nothing but those two
  tests, so they are left out as well.
\<close>

function (sequential) minimax_exhaustive ::
  "nat \<Rightarrow> ('b, 't, 'u) board_ops \<Rightarrow> 'b search_state \<Rightarrow> bool \<Rightarrow> int \<Rightarrow> int
     \<Rightarrow> cand list \<times> cand list \<Rightarrow> 'b search_state \<times> (error + move \<times> score)"
and minimax_exhaustive_loop ::
  "nat \<Rightarrow> ('b, 't, 'u) board_ops \<Rightarrow> 'b search_state \<Rightarrow> bool \<Rightarrow> int
     \<Rightarrow> cand list \<Rightarrow> cand list \<Rightarrow> cand list \<Rightarrow> (move \<times> score) list
     \<Rightarrow> 'b search_state \<times> (error + move \<times> score)"
where
  "minimax_exhaustive 0 ops st maximizer depth branch_factor poss_moves =
     (st, Inl RecursionError)"
| "minimax_exhaustive (Suc fuel) ops st maximizer depth branch_factor poss_moves =
     minimax_exhaustive_loop fuel ops st maximizer depth
       (fst (cap_moves branch_factor poss_moves))
       (snd (cap_moves branch_factor poss_moves))
       (move_order maximizer (fst (cap_moves branch_factor poss_moves))
          (snd (cap_moves branch_factor poss_moves)))
       []"
| "minimax_exhaustive_loop fuel ops st maximizer depth poss_x poss_o [] choices =
     (st, best_choice maximizer choices)"
| "minimax_exhaustive_loop fuel ops st maximizer depth poss_x poss_o (cand # rest) choices =
     (let move = snd cand;
          st1 = st\<lparr>minimax_stack_depth := minimax_stack_depth st + 1\<rparr>;
          b1 = fst (update_board ops (board st1) move);
          orig_states = snd (update_board ops (board st1) move)
      in if check_win ops b1 move then
           (st1\<lparr>board := undo_change ops b1 orig_states move\<rparr>,
            Inr (move, if \<not> maximizer then NegInf else PosInf))
         else
           (case (if depth = 1 then (st1\<lparr>board := b1\<rparr>, Inr (move, score_board ops b1))
                  else minimax_exhaustive fuel ops (st1\<lparr>board := b1\<rparr>) (\<not> maximizer)
                         (depth - 1) 10
                         (next_poss_moves ops b1 move orig_states poss_x poss_o)) of
              (st2, Inl e) \<Rightarrow> (st2, Inl e)
            | (st2, Inr (_, nxt_ply_score)) \<Rightarrow>
                minimax_exhaustive_loop fuel ops
                  (st2\<lparr>board := undo_change ops (board st2) orig_states move\<rparr>)
                  maximizer depth poss_x poss_o rest (choices @ [(move, nxt_ply_score)])))"
  by pat_completeness auto

termination
  by (relation "inv_image (less_than <*lex*> less_than)
        (case_sum (\<lambda>(fuel, _). (2 * fuel, 0))
                  (\<lambda>(fuel, ops, st, maximizer, depth, poss_x, poss_o, poss, _).
                     (2 * fuel + 1, length poss)))") auto

section \<open>Comparing the two searches\<close>

text \<open>
  The value of a candidate in the search without cutoffs, the largest and the smallest
  score of a list of choices (what \<^verbatim>\<open>max\<close> and \<^verbatim>\<open>min\<close> select), and the relation between the
  value \<open>v\<close> a call of \<^verbatim>\<open>minimax\<close> returns under the bounds \<^verbatim>\<open>max_worst\<close> and \<^verbatim>\<open>min_worst\<close> and
  the value \<open>w\<close> of the same call without cutoffs: below \<^verbatim>\<open>max_worst\<close> it is an upper
  bound of \<open>w\<close>, above \<^verbatim>\<open>min_worst\<close> a lower bound, and in between it is \<open>w\<close>. \<open>max_inv\<close> and
  \<open>min_inv\<close> are what the loop of a maximizing and of a minimizing node keeps true of the
  running bound and of the best scores \<open>c\<close> and \<open>e\<close> collected with and without cutoffs.
\<close>

definition nxt_ply_exhaustive ::
  "nat \<Rightarrow> ('b, 't, 'u) board_ops \<Rightarrow> 'b search_state \<Rightarrow> bool \<Rightarrow> int \<Rightarrow> cand list \<Rightarrow> cand list
     \<Rightarrow> move \<Rightarrow> 'b search_state \<times> (error + move \<times> score)" where
  "nxt_ply_exhaustive fuel ops st maximizer depth poss_x poss_o move =
     (if depth = 1
      then (played ops st move, Inr (move, score_board ops (board (played ops st move))))
      else minimax_exhaustive fuel ops (played ops st move) (\<not> maximizer) (depth - 1) 10
             (next_poss_moves ops (board (played ops st move)) move
                (snd (update_board ops (board st) move)) poss_x poss_o))"

definition bound_ok :: "score \<Rightarrow> score \<Rightarrow> score \<Rightarrow> score \<Rightarrow> bool" where
  "bound_ok max_worst min_worst v w =
     ((v < max_worst \<longrightarrow> w \<le> v) \<and> (min_worst < v \<longrightarrow> v \<le> w) \<and>
      (max_worst \<le> v \<and> v \<le> min_worst \<longrightarrow> w = v))"

fun top_score :: "(move \<times> score) list \<Rightarrow> score" where
  "top_score [] = NegInf"
| "top_score (c # cs) = max (snd c) (top_score cs)"

fun bot_score :: "(move \<times> score) list \<Rightarrow> score" where
  "bot_score [] = PosInf"
| "bot_score (c # cs) = min (snd c) (bot_score cs)"

definition max_inv :: "score \<Rightarrow> score \<Rightarrow> score \<Rightarrow> score \<Rightarrow> score \<Rightarrow> bool" where
  "max_inv a0 b a c e =
     (a0 \<le> b \<and> c \<le> b \<and> a = max a0 c \<and> (c < a0 \<longrightarrow> e \<le> c) \<and> (a0 \<le> c \<longrightarrow> e = c))"

definition min_inv :: "score \<Rightarrow> score \<Rightarrow> score \<Rightarrow> score \<Rightarrow> score \<Rightarrow> bool" where
  "min_inv a b0 b c e =
     (a \<le> b0 \<and> a \<le> c \<and> b = min b0 c \<and> (b0 < c \<longrightarrow> c \<le> e) \<and> (c \<le> b0 \<longrightarrow> e = c))"

section \<open>The contract of the board\<close>

text \<open>
  \<^verbatim>\<open>undo_change\<close> exactly reverses the \<^verbatim>\<open>update_board\<close> it is given the record of.
\<close>

definition undo_exact :: "('b, 't, 'u) board_ops \<Rightarrow> bool" where
  "undo_exact ops =
     (\<forall>b move. undo_change ops (fst (update_board ops b move))
                  (snd (update_board ops b move)) move = b)"

section \<open>A board to run the search on\<close>

text \<open>
  Modelled from the spec: the class \<^verbatim>\<open>Board\<close> is missing from the sources, and the search
  cannot be run without one. This grid follows the contract of section 6 of the
  specification: a cell is unclaimed or owned by a mark and carries its pair of heuristic
  scores; a move is legal when its cell is on the grid and unclaimed; applying a move
  claims the cell and returns the cell's position with its previous state; undoing writes
  the recorded states back; a move wins when its row or its column is owned by its mark
  throughout; the static evaluation adds up the score each claimed cell has for its owner.
\<close>

record cell =
  owner :: "mark option"
  value_X :: int
  value_O :: int

type_synonym grid = "cell list list"

definition grid_cell :: "grid \<Rightarrow> nat \<Rightarrow> nat \<Rightarrow> cell option" where
  "grid_cell g tile_x tile_y =
     (if tile_y < length g \<and> tile_x < length (g ! tile_y) then Some (g ! tile_y ! tile_x)
      else None)"

definition grid_set :: "grid \<Rightarrow> nat \<Rightarrow> nat \<Rightarrow> cell \<Rightarrow> grid" where
  "grid_set g tile_x tile_y c =
     (if tile_y < length g \<and> tile_x < length (g ! tile_y)
      then g[tile_y := (g ! tile_y)[tile_x := c]] else g)"

definition grid_legal :: "grid \<Rightarrow> move \<Rightarrow> bool" where
  "grid_legal g move =
     (case grid_cell g (fst move) (fst (snd move)) of
        Some c \<Rightarrow> owner c = None
      | None \<Rightarrow> False)"

definition grid_value :: "grid \<Rightarrow> nat \<Rightarrow> nat \<Rightarrow> mark \<Rightarrow> int" where
  "grid_value g tile_y tile_x m =
     (case grid_cell g tile_x tile_y of
        Some c \<Rightarrow> (if m = Mark_X then value_X c else value_O c)
      | None \<Rightarrow> 0)"

definition grid_update :: "grid \<Rightarrow> move \<Rightarrow> grid \<times> ((nat \<times> nat) \<times> cell) list" where
  "grid_update g move =
     (case grid_cell g (fst move) (fst (snd move)) of
        Some c \<Rightarrow>
          (grid_set g (fst move) (fst (snd move)) (c\<lparr>owner := Some (snd (snd move))\<rparr>),
           [((fst move, fst (snd move)), c)])
      | None \<Rightarrow> (g, []))"

definition grid_undo :: "grid \<Rightarrow> ((nat \<times> nat) \<times> cell) list \<Rightarrow> move \<Rightarrow> grid" where
  "grid_undo g orig_states move =
     foldr (\<lambda>pc g'. grid_set g' (fst (fst pc)) (snd (fst pc)) (snd pc)) orig_states g"

definition grid_win :: "grid \<Rightarrow> move \<Rightarrow> bool" where
  "grid_win g move =
     (fst (snd move) < length g \<and> fst move < length (g ! fst (snd move)) \<and>
      (list_all (\<lambda>c. owner c = Some (snd (snd move))) (g ! fst (snd move)) \<or>
       list_all (\<lambda>row. fst move < length row \<and> owner (row ! fst move) = Some (snd (snd move)))
         g))"

definition grid_score :: "grid \<Rightarrow> score" where
  "grid_score g =
     Fin (sum_list (map (\<lambda>c. case owner c of
                                None \<Rightarrow> 0
                              | Some m \<Rightarrow> (if m = Mark_X then value_X c else value_O c))
                        (concat g)))"

definition grid_ops :: "(grid, cell, cell) board_ops" where
  "grid_ops =
     \<lparr>tiles = (\<lambda>g. g), check_legal = grid_legal, get_value_mark = grid_value,
      update_board = grid_update, undo_change = grid_undo, check_win = grid_win,
      score_board = grid_score\<rparr>"

text \<open>A free cell with the given pair of scores, and a claimed one.\<close>

definition free :: "int \<Rightarrow> int \<Rightarrow> cell" where
  "free sx so = \<lparr>owner = None, value_X = sx, value_O = so\<rparr>"

definition taken :: "mark \<Rightarrow> int \<Rightarrow> int \<Rightarrow> cell" where
  "taken m sx so = \<lparr>owner = Some m, value_X = sx, value_O = so\<rparr>"

definition on_board :: "'b \<Rightarrow> 'b search_state" where
  "on_board b = \<lparr>board = b, minimax_stack_depth = 0\<rparr>"

text \<open>A row of two unclaimed cells.\<close>

definition two_cells :: grid where
  "two_cells = [[free (- 1) 2, free (- 3) 1]]"

text \<open>A grid of four unclaimed cells, and one where the maximizer can win at once.\<close>

definition four_cells :: grid where
  "four_cells = [[free (- 1) 2, free (- 3) 1], [free 0 0, free (- 2) 4]]"

definition win_board :: grid where
  "win_board = [[taken Mark_O (- 1) 1, free (- 1) 1], [taken Mark_X (- 1) 1, free (- 5) 5]]"

section \<open>Properties\<close>

lemma grid_undo_exact: "undo_exact grid_ops"
  by (auto simp add: undo_exact_def grid_ops_def grid_update_def grid_undo_def grid_cell_def
        grid_set_def list_update_same_conv)

subsection \<open>Capping and ordering the candidates\<close>

lemma slice_to_nonneg: "0 \<le> k \<Longrightarrow> slice_to xs k = take (nat k) xs"
  by (simp add: slice_to_def)

lemma slice_from_neg: "k < 0 \<Longrightarrow> slice_from xs k = drop (length xs - nat (- k)) xs"
proof -
  assume k: "k < 0"
  have "nat (int (length xs) + k) = length xs - nat (- k)" using k by linarith
  then show ?thesis using k by (simp add: slice_from_def)
qed

lemma cap_moves_eq:
  assumes "1 \<le> B"
  shows "cap_moves B (px, po) = (take (nat (B div 2)) px, drop (length po - nat ((B + 1) div 2)) po)"
proof -
  have a: "0 \<le> B div 2" using assms by simp
  have b: "(- B) div 2 < 0" using assms by linarith
  have c: "nat (- ((- B) div 2)) = nat ((B + 1) div 2)" by linarith
  show ?thesis
    by (simp add: cap_moves_def slice_to_nonneg [OF a] slice_from_neg [OF b] c)
qed

lemma move_order_length:
  fixes n :: nat
  assumes "length px \<le> n div 2" and "length po \<le> (n + 1) div 2"
  shows "length (move_order mx px po) \<le> n"
proof (cases mx)
  case True
  have "length (move_order True px po)
          = (length po - length po div 2) + length px div 2 + length po div 2
              + (length px - length po div 2)"
    by (simp add: move_order_def min_absorb1 min_absorb2)
  also have "\<dots> \<le> n" using assms by linarith
  finally show ?thesis using True by simp
next
  case False
  have "length (move_order False px po)
          = length px div 2 + (length po - length po div 2)
              + (length px - length px div 2) + length po div 2"
    by (simp add: move_order_def min_absorb1 min_absorb2)
  also have "\<dots> \<le> n" using assms by linarith
  finally show ?thesis using False by simp
qed

lemma cap_total:
  assumes "1 \<le> B"
  shows "length (move_order mx (fst (cap_moves B pm)) (snd (cap_moves B pm))) \<le> nat B"
proof -
  obtain px po where pm: "pm = (px, po)" by (cases pm)
  have n1: "nat (B div 2) = nat B div 2" using assms by linarith
  have n2: "nat ((B + 1) div 2) = (nat B + 1) div 2" using assms by linarith
  have lx: "length (fst (cap_moves B pm)) \<le> nat B div 2"
    unfolding pm cap_moves_eq [OF assms] by (simp add: n1)
  have lo: "length (snd (cap_moves B pm)) \<le> (nat B + 1) div 2"
    unfolding pm cap_moves_eq [OF assms] by (simp add: n2)
  show ?thesis by (rule move_order_length [OF lx lo])
qed


lemma cap_moves_idem:
  assumes "1 \<le> B"
  shows "cap_moves B (cap_moves B pm) = cap_moves B pm"
proof -
  obtain px po where pm: "pm = (px, po)" by (cases pm)
  show ?thesis unfolding pm cap_moves_eq [OF assms] by simp
qed

text \<open>
  C5, as the code has it. For a branch factor \<open>B \<ge> 1\<close>, the node that runs with \<open>B\<close> keeps
  the first \<open>B div 2\<close> entries of the minimizer-favoring list and the last
  \<open>(B + 1) div 2\<close> entries of the maximizer-favoring list (\<^verbatim>\<open>-branch_factor//2\<close> is
  \<^verbatim>\<open>(-branch_factor)//2\<close> and rounds away from zero), the list of candidates it explores has
  at most \<open>B\<close> entries, and capping a second time, as \<^verbatim>\<open>get_move\<close> followed by \<^verbatim>\<open>minimax\<close>
  does at the root, changes nothing.
\<close>

theorem cap_moves_bound:
  "1 \<le> B \<Longrightarrow>
     fst (cap_moves B (poss_x, poss_o)) = take (nat (B div 2)) poss_x \<and>
     snd (cap_moves B (poss_x, poss_o)) = drop (length poss_o - nat ((B + 1) div 2)) poss_o \<and>
     length (move_order maximizer (fst (cap_moves B (poss_x, poss_o)))
               (snd (cap_moves B (poss_x, poss_o)))) \<le> nat B \<and>
     cap_moves B (cap_moves B (poss_x, poss_o)) = cap_moves B (poss_x, poss_o)"
proof -
  assume B: "1 \<le> B"
  have 1: "fst (cap_moves B (poss_x, poss_o)) = take (nat (B div 2)) poss_x"
    by (simp only: cap_moves_eq [OF B] fst_conv)
  have 2: "snd (cap_moves B (poss_x, poss_o))
             = drop (length poss_o - nat ((B + 1) div 2)) poss_o"
    by (simp only: cap_moves_eq [OF B] snd_conv)
  show ?thesis
    using 1 2 cap_total [OF B, of maximizer "(poss_x, poss_o)"]
      cap_moves_idem [OF B, of "(poss_x, poss_o)"]
    by blast
qed

text \<open>The bound at the branch factor 3, on two lists of three candidates each.\<close>

theorem cap_moves_bound_witness:
  "(1::int) \<le> 3 \<and>
   fst (cap_moves 3 ([((- 3, 0), (0, 0, Mark_O)), ((- 2, 0), (1, 0, Mark_O)),
                      ((- 1, 0), (2, 0, Mark_O))],
                     [((0, 1), (0, 1, Mark_O)), ((0, 2), (1, 1, Mark_O)),
                      ((0, 3), (2, 1, Mark_O))]))
     = [((- 3, 0), (0, 0, Mark_O))] \<and>
   snd (cap_moves 3 ([((- 3, 0), (0, 0, Mark_O)), ((- 2, 0), (1, 0, Mark_O)),
                      ((- 1, 0), (2, 0, Mark_O))],
                     [((0, 1), (0, 1, Mark_O)), ((0, 2), (1, 1, Mark_O)),
                      ((0, 3), (2, 1, Mark_O))]))
     = [((0, 2), (1, 1, Mark_O)), ((0, 3), (2, 1, Mark_O))]"
  using cap_moves_bound [of 3
      "[((- 3, 0), (0, 0, Mark_O)), ((- 2, 0), (1, 0, Mark_O)), ((- 1, 0), (2, 0, Mark_O))]"
      "[((0, 1), (0, 1, Mark_O)), ((0, 2), (1, 1, Mark_O)), ((0, 3), (2, 1, Mark_O))]" True]
  by simp

text \<open>
  C5 as stated fails: at the branch factor 3 the maximizer-favoring list keeps its last two
  entries, not its last \<open>3 div 2 = 1\<close>.
\<close>

theorem cap_moves_floor_counterexample:
  "snd (cap_moves 3 ([], [((0, 1), (0, 0, Mark_O)), ((0, 2), (1, 0, Mark_O)),
                          ((0, 3), (2, 0, Mark_O))]))
     \<noteq> drop (3 - nat (3 div 2)) [((0, 1), (0, 0, Mark_O)), ((0, 2), (1, 0, Mark_O)),
                                  ((0, 3), (2, 0, Mark_O))]"
  by code_simp

text \<open>
  C6 at a failing input. With the maximizer to move, four minimizer-favoring candidates and
  no maximizer-favoring one, the last slice is \<^verbatim>\<open>poss_x[len(poss_o)//2:]\<close>, the whole list, and
  not the second half of \<^verbatim>\<open>poss_x\<close>: the first two candidates are explored twice.
\<close>

theorem move_order_maximizer_repeats:
  "move_order True
       [((- 4, 0), (0, 0, Mark_O)), ((- 3, 0), (1, 0, Mark_O)),
        ((- 2, 0), (2, 0, Mark_O)), ((- 1, 0), (3, 0, Mark_O))] []
     = [((- 4, 0), (0, 0, Mark_O)), ((- 3, 0), (1, 0, Mark_O)),
        ((- 4, 0), (0, 0, Mark_O)), ((- 3, 0), (1, 0, Mark_O)),
        ((- 2, 0), (2, 0, Mark_O)), ((- 1, 0), (3, 0, Mark_O))]"
  by code_simp

subsection \<open>A node without candidates\<close>

text \<open>
  C3, as the code has it. A call of \<^verbatim>\<open>minimax\<close> whose two candidate lists are empty runs its
  loop zero times, leaves the board and the counter alone and ends in the \<^verbatim>\<open>ValueError\<close> of
  \<^verbatim>\<open>max\<close>/\<^verbatim>\<open>min\<close> over the empty list of choices; \<^verbatim>\<open>score_board\<close> is not consulted.
\<close>

theorem minimax_no_candidates:
  "minimax (Suc fuel) ops st maximizer depth branch_factor ([], []) max_worst min_worst
     = (st, Inl ValueError)"
  by (simp add: cap_moves_def slice_to_def slice_from_def move_order_def best_choice_def
        max_choice_def min_choice_def)

text \<open>
  C3 as stated fails: on a board whose only unclaimed cell has the scores \<open>(0, 0)\<close>, no move
  wins, both candidate lists are empty, and the search of depth 1 raises instead of
  returning the static evaluation.
\<close>

theorem no_candidates_counterexample:
  "get_move 1 grid_ops Mark_O (on_board [[taken Mark_X (- 1) 1, free 0 0]]) 1 20
     = (on_board [[taken Mark_X (- 1) 1, free 0 0]], Inl ValueError)"
  by code_simp

subsection \<open>The candidate lists of the next ply\<close>

lemma next_poss_moves_legal_irrelevant:
  "next_poss_moves (ops\<lparr>check_legal := legal'\<rparr>) b move orig_states poss_x poss_o
     = next_poss_moves ops b move orig_states poss_x poss_o"
  by (simp add: next_poss_moves_def)

lemma next_poss_moves_mark:
  "c \<in> set (fst (next_poss_moves ops b move orig_states poss_x poss_o))
        \<union> set (snd (next_poss_moves ops b move orig_states poss_x poss_o))
   \<Longrightarrow> snd (snd (snd c)) = (if snd (snd move) = Mark_X then Mark_O else Mark_X)"
  unfolding next_poss_moves_def Let_def fst_conv snd_conv set_map
  by (elim UnE imageE) simp_all


lemma next_poss_moves_reported:
  fixes orig_states :: "((nat \<times> nat) \<times> 'u) list"
  assumes "((tile_x, tile_y), u) \<in> set orig_states"
  shows "(get_value_mark ops b tile_y tile_x Mark_X < 0 \<longrightarrow>
          ((get_value_mark ops b tile_y tile_x Mark_X, get_value_mark ops b tile_y tile_x Mark_O),
           (tile_x, tile_y, if snd (snd move) = Mark_X then Mark_O else Mark_X))
          \<in> set (fst (next_poss_moves ops b move orig_states poss_x poss_o))) \<and>
         (get_value_mark ops b tile_y tile_x Mark_O > 0 \<longrightarrow>
          ((get_value_mark ops b tile_y tile_x Mark_X, get_value_mark ops b tile_y tile_x Mark_O),
           (tile_x, tile_y, if snd (snd move) = Mark_X then Mark_O else Mark_X))
          \<in> set (snd (next_poss_moves ops b move orig_states poss_x poss_o)))"
proof -
  define n where "n = (if snd (snd move) = Mark_X then Mark_O else Mark_X)"
  define G :: "(nat \<times> nat) \<times> 'u \<Rightarrow> cand" where
    "G = (\<lambda>((tile_x, tile_y), _).
            ((get_value_mark ops b tile_y tile_x Mark_X, get_value_mark ops b tile_y tile_x Mark_O),
             (tile_x, tile_y, n)))"
  define F :: "cand \<Rightarrow> cand" where
    "F = (\<lambda>poss. (fst poss, (fst (snd poss), fst (snd (snd poss)), n)))"
  define e where
    "e = ((get_value_mark ops b tile_y tile_x Mark_X, get_value_mark ops b tile_y tile_x Mark_O),
          (tile_x, tile_y, n))"
  have ne: "snd e \<noteq> move" unfolding e_def n_def by (cases move) auto
  have Fe: "F e = e" unfolding F_def e_def by simp
  have "G ((tile_x, tile_y), u) = e" unfolding G_def e_def by simp
  then have m: "e \<in> set (map G orig_states)" using assms by force
  have fx: "fst (next_poss_moves ops b move orig_states poss_x poss_o)
          = map F (filter (\<lambda>poss. snd poss \<noteq> move)
              (sort_key (\<lambda>x. fst (fst x))
                 (poss_x @ filter (\<lambda>poss. fst (fst poss) < 0) (map G orig_states))))"
    unfolding next_poss_moves_def Let_def F_def G_def n_def by simp
  have fo: "snd (next_poss_moves ops b move orig_states poss_x poss_o)
          = map F (filter (\<lambda>poss. snd poss \<noteq> move)
              (sort_key (\<lambda>c. snd (fst c))
                 (poss_o @ filter (\<lambda>poss. snd (fst poss) > 0) (map G orig_states))))"
    unfolding next_poss_moves_def Let_def F_def G_def n_def by simp
  have 1: "fst (fst e) < 0 \<Longrightarrow> e \<in> set (fst (next_poss_moves ops b move orig_states poss_x poss_o))"
  proof -
    assume "fst (fst e) < 0"
    then have "e \<in> set (filter (\<lambda>poss. snd poss \<noteq> move)
              (sort_key (\<lambda>x. fst (fst x))
                 (poss_x @ filter (\<lambda>poss. fst (fst poss) < 0) (map G orig_states))))"
      using m ne by simp
    then have "F e \<in> set (fst (next_poss_moves ops b move orig_states poss_x poss_o))"
      unfolding fx set_map by (rule imageI)
    then show ?thesis by (simp only: Fe)
  qed
  have 2: "snd (fst e) > 0 \<Longrightarrow> e \<in> set (snd (next_poss_moves ops b move orig_states poss_x poss_o))"
  proof -
    assume "snd (fst e) > 0"
    then have "e \<in> set (filter (\<lambda>poss. snd poss \<noteq> move)
              (sort_key (\<lambda>c. snd (fst c))
                 (poss_o @ filter (\<lambda>poss. snd (fst poss) > 0) (map G orig_states))))"
      using m ne by simp
    then have "F e \<in> set (snd (next_poss_moves ops b move orig_states poss_x poss_o))"
      unfolding fo set_map by (rule imageI)
    then show ?thesis by (simp only: Fe)
  qed
  show ?thesis using 1 2 unfolding e_def n_def by simp
qed


text \<open>
  What the two lists for the next ply are made of: the entries of the current list other than
  those of the move just played, and the entries recomputed from the reported cells that pass
  the sign test, all under the mark of the next mover.
\<close>

lemma next_poss_moves_sets:
  fixes orig_states :: "((nat \<times> nat) \<times> 'u) list"
  shows
  "set (fst (next_poss_moves ops b move orig_states poss_x poss_o)) =
     (\<lambda>p. (fst p, (fst (snd p), fst (snd (snd p)),
                    if snd (snd move) = Mark_X then Mark_O else Mark_X))) `
        {p \<in> set poss_x. snd p \<noteq> move} \<union>
     (\<lambda>q. ((get_value_mark ops b (snd (fst q)) (fst (fst q)) Mark_X,
             get_value_mark ops b (snd (fst q)) (fst (fst q)) Mark_O),
            (fst (fst q), snd (fst q), if snd (snd move) = Mark_X then Mark_O else Mark_X))) `
        {q \<in> set orig_states. get_value_mark ops b (snd (fst q)) (fst (fst q)) Mark_X < 0}"
  and
  "set (snd (next_poss_moves ops b move orig_states poss_x poss_o)) =
     (\<lambda>p. (fst p, (fst (snd p), fst (snd (snd p)),
                    if snd (snd move) = Mark_X then Mark_O else Mark_X))) `
        {p \<in> set poss_o. snd p \<noteq> move} \<union>
     (\<lambda>q. ((get_value_mark ops b (snd (fst q)) (fst (fst q)) Mark_X,
             get_value_mark ops b (snd (fst q)) (fst (fst q)) Mark_O),
            (fst (fst q), snd (fst q), if snd (snd move) = Mark_X then Mark_O else Mark_X))) `
        {q \<in> set orig_states. get_value_mark ops b (snd (fst q)) (fst (fst q)) Mark_O > 0}"
proof -
  define n where "n = (if snd (snd move) = Mark_X then Mark_O else Mark_X)"
  define G :: "(nat \<times> nat) \<times> 'u \<Rightarrow> cand" where
    "G = (\<lambda>q. ((get_value_mark ops b (snd (fst q)) (fst (fst q)) Mark_X,
             get_value_mark ops b (snd (fst q)) (fst (fst q)) Mark_O),
            (fst (fst q), snd (fst q), n)))"
  define F :: "cand \<Rightarrow> cand" where
    "F = (\<lambda>poss. (fst poss, (fst (snd poss), fst (snd (snd poss)), n)))"
  have G': "(\<lambda>((tile_x, tile_y), _).
                   ((get_value_mark ops b tile_y tile_x Mark_X, get_value_mark ops b tile_y tile_x Mark_O),
                    (tile_x, tile_y, n))) = G"
    unfolding G_def by (simp add: fun_eq_iff split_def)
  have ne: "snd (G q) \<noteq> move" for q
    unfolding G_def n_def by (cases move) auto
  have ne': "move \<noteq> snd (G q)" for q
    using ne [of q] by blast
  have FG: "F (G q) = G q" for q
    unfolding F_def G_def by simp
  have fx: "fst (next_poss_moves ops b move orig_states poss_x poss_o)
          = map F (filter (\<lambda>poss. snd poss \<noteq> move)
              (sort_key (\<lambda>x. fst (fst x))
                 (poss_x @ filter (\<lambda>poss. fst (fst poss) < 0) (map G orig_states))))"
    unfolding next_poss_moves_def Let_def fst_conv n_def [symmetric] G' F_def ..
  have fo: "snd (next_poss_moves ops b move orig_states poss_x poss_o)
          = map F (filter (\<lambda>poss. snd poss \<noteq> move)
              (sort_key (\<lambda>c. snd (fst c))
                 (poss_o @ filter (\<lambda>poss. snd (fst poss) > 0) (map G orig_states))))"
    unfolding next_poss_moves_def Let_def snd_conv n_def [symmetric] G' F_def ..
  have sx: "set (fst (next_poss_moves ops b move orig_states poss_x poss_o))
          = F ` {p \<in> set poss_x. snd p \<noteq> move}
            \<union> G ` {q \<in> set orig_states. fst (fst (G q)) < 0}"
  proof -
    have "set (fst (next_poss_moves ops b move orig_states poss_x poss_o))
            = F ` ({p \<in> set poss_x. snd p \<noteq> move}
                   \<union> {p \<in> G ` set orig_states. fst (fst p) < 0 \<and> snd p \<noteq> move})"
      unfolding fx by auto
    also have "{p \<in> G ` set orig_states. fst (fst p) < 0 \<and> snd p \<noteq> move}
                 = G ` {q \<in> set orig_states. fst (fst (G q)) < 0}"
      by (auto simp add: ne ne')
    also have "F ` ({p \<in> set poss_x. snd p \<noteq> move}
                    \<union> G ` {q \<in> set orig_states. fst (fst (G q)) < 0})
                 = F ` {p \<in> set poss_x. snd p \<noteq> move}
                   \<union> G ` {q \<in> set orig_states. fst (fst (G q)) < 0}"
      by (simp add: image_Un image_image FG)
    finally show ?thesis .
  qed
  have so: "set (snd (next_poss_moves ops b move orig_states poss_x poss_o))
          = F ` {p \<in> set poss_o. snd p \<noteq> move}
            \<union> G ` {q \<in> set orig_states. snd (fst (G q)) > 0}"
  proof -
    have "set (snd (next_poss_moves ops b move orig_states poss_x poss_o))
            = F ` ({p \<in> set poss_o. snd p \<noteq> move}
                   \<union> {p \<in> G ` set orig_states. snd (fst p) > 0 \<and> snd p \<noteq> move})"
      unfolding fo by auto
    also have "{p \<in> G ` set orig_states. snd (fst p) > 0 \<and> snd p \<noteq> move}
                 = G ` {q \<in> set orig_states. snd (fst (G q)) > 0}"
      by (auto simp add: ne ne')
    also have "F ` ({p \<in> set poss_o. snd p \<noteq> move}
                    \<union> G ` {q \<in> set orig_states. snd (fst (G q)) > 0})
                 = F ` {p \<in> set poss_o. snd p \<noteq> move}
                   \<union> G ` {q \<in> set orig_states. snd (fst (G q)) > 0}"
      by (simp add: image_Un image_image FG)
    finally show ?thesis .
  qed
  show "set (fst (next_poss_moves ops b move orig_states poss_x poss_o)) =
     (\<lambda>p. (fst p, (fst (snd p), fst (snd (snd p)),
                    if snd (snd move) = Mark_X then Mark_O else Mark_X))) `
        {p \<in> set poss_x. snd p \<noteq> move} \<union>
     (\<lambda>q. ((get_value_mark ops b (snd (fst q)) (fst (fst q)) Mark_X,
             get_value_mark ops b (snd (fst q)) (fst (fst q)) Mark_O),
            (fst (fst q), snd (fst q), if snd (snd move) = Mark_X then Mark_O else Mark_X))) `
        {q \<in> set orig_states. get_value_mark ops b (snd (fst q)) (fst (fst q)) Mark_X < 0}"
    using sx unfolding F_def G_def n_def by simp
  show "set (snd (next_poss_moves ops b move orig_states poss_x poss_o)) =
     (\<lambda>p. (fst p, (fst (snd p), fst (snd (snd p)),
                    if snd (snd move) = Mark_X then Mark_O else Mark_X))) `
        {p \<in> set poss_o. snd p \<noteq> move} \<union>
     (\<lambda>q. ((get_value_mark ops b (snd (fst q)) (fst (fst q)) Mark_X,
             get_value_mark ops b (snd (fst q)) (fst (fst q)) Mark_O),
            (fst (fst q), snd (fst q), if snd (snd move) = Mark_X then Mark_O else Mark_X))) `
        {q \<in> set orig_states. get_value_mark ops b (snd (fst q)) (fst (fst q)) Mark_O > 0}"
    using so unfolding F_def G_def n_def by simp
qed

lemma next_poss_moves_played_cell:
  fixes orig_states :: "((nat \<times> nat) \<times> 'u) list"
  shows
  "\<forall>p \<in> set poss_x. snd (snd (snd p)) = snd (snd move) \<Longrightarrow>
   filter (\<lambda>c. fst (snd c) = fst move \<and> fst (snd (snd c)) = fst (snd move))
       (fst (next_poss_moves ops b move orig_states poss_x poss_o)) =
     sort_key (\<lambda>x. fst (fst x))
       (filter (\<lambda>c. fst (snd c) = fst move \<and> fst (snd (snd c)) = fst (snd move))
          (filter (\<lambda>poss. fst (fst poss) < 0)
             (map (\<lambda>q. ((get_value_mark ops b (snd (fst q)) (fst (fst q)) Mark_X,
                          get_value_mark ops b (snd (fst q)) (fst (fst q)) Mark_O),
                         (fst (fst q), snd (fst q),
                          if snd (snd move) = Mark_X then Mark_O else Mark_X)))
                orig_states)))"
  and
  "\<forall>p \<in> set poss_o. snd (snd (snd p)) = snd (snd move) \<Longrightarrow>
   filter (\<lambda>c. fst (snd c) = fst move \<and> fst (snd (snd c)) = fst (snd move))
       (snd (next_poss_moves ops b move orig_states poss_x poss_o)) =
     sort_key (\<lambda>c. snd (fst c))
       (filter (\<lambda>c. fst (snd c) = fst move \<and> fst (snd (snd c)) = fst (snd move))
          (filter (\<lambda>poss. snd (fst poss) > 0)
             (map (\<lambda>q. ((get_value_mark ops b (snd (fst q)) (fst (fst q)) Mark_X,
                          get_value_mark ops b (snd (fst q)) (fst (fst q)) Mark_O),
                         (fst (fst q), snd (fst q),
                          if snd (snd move) = Mark_X then Mark_O else Mark_X)))
                orig_states)))"
proof -
  define n where "n = (if snd (snd move) = Mark_X then Mark_O else Mark_X)"
  define G :: "(nat \<times> nat) \<times> 'u \<Rightarrow> cand" where
    "G = (\<lambda>q. ((get_value_mark ops b (snd (fst q)) (fst (fst q)) Mark_X,
             get_value_mark ops b (snd (fst q)) (fst (fst q)) Mark_O),
            (fst (fst q), snd (fst q), n)))"
  define F :: "cand \<Rightarrow> cand" where
    "F = (\<lambda>poss. (fst poss, (fst (snd poss), fst (snd (snd poss)), n)))"
  define Q :: "cand \<Rightarrow> bool" where
    "Q = (\<lambda>c. fst (snd c) = fst move \<and> fst (snd (snd c)) = fst (snd move))"
  define P :: "cand \<Rightarrow> bool" where "P = (\<lambda>poss. snd poss \<noteq> move)"
  have G': "(\<lambda>((tile_x, tile_y), _).
                   ((get_value_mark ops b tile_y tile_x Mark_X, get_value_mark ops b tile_y tile_x Mark_O),
                    (tile_x, tile_y, n))) = G"
    unfolding G_def by (simp add: fun_eq_iff split_def)
  have PG: "P (G q)" for q
    unfolding P_def G_def n_def by (cases move) auto
  have FG: "F (G q) = G q" for q
    unfolding F_def G_def by simp
  have QF: "Q (F c) = Q c" for c
    unfolding Q_def F_def by simp
  have fx: "fst (next_poss_moves ops b move orig_states poss_x poss_o)
          = map F (filter P
              (sort_key (\<lambda>x. fst (fst x))
                 (poss_x @ filter (\<lambda>poss. fst (fst poss) < 0) (map G orig_states))))"
    unfolding next_poss_moves_def Let_def fst_conv n_def [symmetric] G' F_def P_def ..
  have fo: "snd (next_poss_moves ops b move orig_states poss_x poss_o)
          = map F (filter P
              (sort_key (\<lambda>c. snd (fst c))
                 (poss_o @ filter (\<lambda>poss. snd (fst poss) > 0) (map G orig_states))))"
    unfolding next_poss_moves_def Let_def snd_conv n_def [symmetric] G' F_def P_def ..
  have gen: "filter Q (map F (filter P (sort_key k (inh @ filter T (map G orig_states)))))
               = sort_key k (filter Q (filter T (map G orig_states)))"
    if inh: "\<forall>p \<in> set inh. snd (snd (snd p)) = snd (snd move)"
    for k :: "cand \<Rightarrow> int" and inh T
  proof -
    have a: "filter Q (map F zs) = map F (filter Q zs)" for zs
      by (simp add: filter_map o_def QF)
    have i: "filter (\<lambda>x. P x \<and> Q x) inh = []"
      using inh unfolding P_def Q_def by (auto simp add: filter_empty_conv prod_eq_iff)
    have r: "filter (\<lambda>x. P x \<and> Q x) (filter T (map G orig_states))
               = filter Q (filter T (map G orig_states))"
      by (rule filter_cong) (auto simp add: PG)
    have m: "map F (sort_key k (filter Q (filter T (map G orig_states))))
               = sort_key k (filter Q (filter T (map G orig_states)))"
      by (rule map_idI) (auto simp add: FG)
    have "filter Q (map F (filter P (sort_key k (inh @ filter T (map G orig_states)))))
            = map F (sort_key k (filter (\<lambda>x. P x \<and> Q x) (inh @ filter T (map G orig_states))))"
      by (simp add: a filter_sort)
    also have "\<dots> = map F (sort_key k (filter Q (filter T (map G orig_states))))"
      using i r by simp
    finally show ?thesis using m by simp
  qed
  show "filter (\<lambda>c. fst (snd c) = fst move \<and> fst (snd (snd c)) = fst (snd move))
       (fst (next_poss_moves ops b move orig_states poss_x poss_o)) =
     sort_key (\<lambda>x. fst (fst x))
       (filter (\<lambda>c. fst (snd c) = fst move \<and> fst (snd (snd c)) = fst (snd move))
          (filter (\<lambda>poss. fst (fst poss) < 0)
             (map (\<lambda>q. ((get_value_mark ops b (snd (fst q)) (fst (fst q)) Mark_X,
                          get_value_mark ops b (snd (fst q)) (fst (fst q)) Mark_O),
                         (fst (fst q), snd (fst q),
                          if snd (snd move) = Mark_X then Mark_O else Mark_X)))
                orig_states)))"
    if "\<forall>p \<in> set poss_x. snd (snd (snd p)) = snd (snd move)"
    using gen [OF that, of "\<lambda>x. fst (fst x)" "\<lambda>poss. fst (fst poss) < 0"]
    unfolding fx Q_def G_def n_def .
  show "filter (\<lambda>c. fst (snd c) = fst move \<and> fst (snd (snd c)) = fst (snd move))
       (snd (next_poss_moves ops b move orig_states poss_x poss_o)) =
     sort_key (\<lambda>c. snd (fst c))
       (filter (\<lambda>c. fst (snd c) = fst move \<and> fst (snd (snd c)) = fst (snd move))
          (filter (\<lambda>poss. snd (fst poss) > 0)
             (map (\<lambda>q. ((get_value_mark ops b (snd (fst q)) (fst (fst q)) Mark_X,
                          get_value_mark ops b (snd (fst q)) (fst (fst q)) Mark_O),
                         (fst (fst q), snd (fst q),
                          if snd (snd move) = Mark_X then Mark_O else Mark_X)))
                orig_states)))"
    if "\<forall>p \<in> set poss_o. snd (snd (snd p)) = snd (snd move)"
    using gen [OF that, of "\<lambda>c. snd (fst c)" "\<lambda>poss. snd (fst poss) > 0"]
    unfolding fo Q_def G_def n_def .
qed

text \<open>
  C7, as the code has it. Each list passed to the recursive call consists of exactly the
  entries inherited from the current list whose move is not the move just played, re-tagged
  with the next mover's mark, and the entries recomputed from the cells that \<^verbatim>\<open>update_board\<close>
  reported whose score passes the sign test of the list. When every inherited entry carries
  the mark of the mover (as the lists of \<^verbatim>\<open>get_possible_moves\<close> and of every earlier ply do),
  the entries of the new list at the cell just played are exactly the recomputed ones, once
  per report: no inherited entry for that cell is left.
\<close>

theorem next_poss_moves_drops_played_entry:
  fixes orig_states :: "((nat \<times> nat) \<times> 'u) list"
  shows
  "set (fst (next_poss_moves ops b move orig_states poss_x poss_o)) =
     (\<lambda>p. (fst p, (fst (snd p), fst (snd (snd p)),
                    if snd (snd move) = Mark_X then Mark_O else Mark_X))) `
        {p \<in> set poss_x. snd p \<noteq> move} \<union>
     (\<lambda>q. ((get_value_mark ops b (snd (fst q)) (fst (fst q)) Mark_X,
             get_value_mark ops b (snd (fst q)) (fst (fst q)) Mark_O),
            (fst (fst q), snd (fst q), if snd (snd move) = Mark_X then Mark_O else Mark_X))) `
        {q \<in> set orig_states. get_value_mark ops b (snd (fst q)) (fst (fst q)) Mark_X < 0} \<and>
   set (snd (next_poss_moves ops b move orig_states poss_x poss_o)) =
     (\<lambda>p. (fst p, (fst (snd p), fst (snd (snd p)),
                    if snd (snd move) = Mark_X then Mark_O else Mark_X))) `
        {p \<in> set poss_o. snd p \<noteq> move} \<union>
     (\<lambda>q. ((get_value_mark ops b (snd (fst q)) (fst (fst q)) Mark_X,
             get_value_mark ops b (snd (fst q)) (fst (fst q)) Mark_O),
            (fst (fst q), snd (fst q), if snd (snd move) = Mark_X then Mark_O else Mark_X))) `
        {q \<in> set orig_states. get_value_mark ops b (snd (fst q)) (fst (fst q)) Mark_O > 0} \<and>
   ((\<forall>p \<in> set poss_x. snd (snd (snd p)) = snd (snd move)) \<longrightarrow>
    filter (\<lambda>c. fst (snd c) = fst move \<and> fst (snd (snd c)) = fst (snd move))
       (fst (next_poss_moves ops b move orig_states poss_x poss_o)) =
     sort_key (\<lambda>x. fst (fst x))
       (filter (\<lambda>c. fst (snd c) = fst move \<and> fst (snd (snd c)) = fst (snd move))
          (filter (\<lambda>poss. fst (fst poss) < 0)
             (map (\<lambda>q. ((get_value_mark ops b (snd (fst q)) (fst (fst q)) Mark_X,
                          get_value_mark ops b (snd (fst q)) (fst (fst q)) Mark_O),
                         (fst (fst q), snd (fst q),
                          if snd (snd move) = Mark_X then Mark_O else Mark_X)))
                orig_states)))) \<and>
   ((\<forall>p \<in> set poss_o. snd (snd (snd p)) = snd (snd move)) \<longrightarrow>
    filter (\<lambda>c. fst (snd c) = fst move \<and> fst (snd (snd c)) = fst (snd move))
       (snd (next_poss_moves ops b move orig_states poss_x poss_o)) =
     sort_key (\<lambda>c. snd (fst c))
       (filter (\<lambda>c. fst (snd c) = fst move \<and> fst (snd (snd c)) = fst (snd move))
          (filter (\<lambda>poss. snd (fst poss) > 0)
             (map (\<lambda>q. ((get_value_mark ops b (snd (fst q)) (fst (fst q)) Mark_X,
                          get_value_mark ops b (snd (fst q)) (fst (fst q)) Mark_O),
                         (fst (fst q), snd (fst q),
                          if snd (snd move) = Mark_X then Mark_O else Mark_X)))
                orig_states))))"
  by (intro conjI impI next_poss_moves_sets next_poss_moves_played_cell)

text \<open>
  On \<open>four_cells\<close> the maximizer's candidate \<open>(0, 0)\<close> stands in both lists and does not win.
  After it is played, each list for the next ply has one entry at that cell, the recomputed
  one: the two inherited entries are gone.
\<close>

theorem next_poss_moves_drops_played_entry_witness:
  "((- 1, 2), (0, 0, Mark_O))
      \<in> set (move_order True (fst (cap_moves 20 (get_possible_moves grid_ops four_cells True)))
                (snd (cap_moves 20 (get_possible_moves grid_ops four_cells True)))) \<and>
   \<not> check_win grid_ops (fst (update_board grid_ops four_cells (0, 0, Mark_O))) (0, 0, Mark_O) \<and>
   ((- 1, 2), (0, 0, Mark_O))
      \<in> set (fst (cap_moves 20 (get_possible_moves grid_ops four_cells True))) \<and>
   ((- 1, 2), (0, 0, Mark_O))
      \<in> set (snd (cap_moves 20 (get_possible_moves grid_ops four_cells True))) \<and>
   filter (\<lambda>c. fst (snd c) = 0 \<and> fst (snd (snd c)) = 0)
       (fst (next_poss_moves grid_ops (fst (update_board grid_ops four_cells (0, 0, Mark_O)))
               (0, 0, Mark_O) (snd (update_board grid_ops four_cells (0, 0, Mark_O)))
               (fst (cap_moves 20 (get_possible_moves grid_ops four_cells True)))
               (snd (cap_moves 20 (get_possible_moves grid_ops four_cells True)))))
     = [((- 1, 2), (0, 0, Mark_X))] \<and>
   filter (\<lambda>c. fst (snd c) = 0 \<and> fst (snd (snd c)) = 0)
       (snd (next_poss_moves grid_ops (fst (update_board grid_ops four_cells (0, 0, Mark_O)))
               (0, 0, Mark_O) (snd (update_board grid_ops four_cells (0, 0, Mark_O)))
               (fst (cap_moves 20 (get_possible_moves grid_ops four_cells True)))
               (snd (cap_moves 20 (get_possible_moves grid_ops four_cells True)))))
     = [((- 1, 2), (0, 0, Mark_X))]"
proof -
  define px where "px = fst (cap_moves 20 (get_possible_moves grid_ops four_cells True))"
  define po where "po = snd (cap_moves 20 (get_possible_moves grid_ops four_cells True))"
  define b1 where "b1 = fst (update_board grid_ops four_cells (0, 0, Mark_O))"
  define os where "os = snd (update_board grid_ops four_cells (0, 0, Mark_O))"
  note t = next_poss_moves_drops_played_entry [of grid_ops b1 "(0, 0, Mark_O)" os px po]
  have c: "((- 1, 2), (0, 0, Mark_O))
      \<in> set (move_order True (fst (cap_moves 20 (get_possible_moves grid_ops four_cells True)))
                (snd (cap_moves 20 (get_possible_moves grid_ops four_cells True))))"
    by code_simp
  have w: "\<not> check_win grid_ops (fst (update_board grid_ops four_cells (0, 0, Mark_O)))
               (0, 0, Mark_O)"
    by code_simp
  have ix: "((- 1, 2), (0, 0, Mark_O))
      \<in> set (fst (cap_moves 20 (get_possible_moves grid_ops four_cells True)))"
    by code_simp
  have io: "((- 1, 2), (0, 0, Mark_O))
      \<in> set (snd (cap_moves 20 (get_possible_moves grid_ops four_cells True)))"
    by code_simp
  have hx: "\<forall>p \<in> set px. snd (snd (snd p)) = snd (snd (0 :: nat, 0 :: nat, Mark_O))"
    unfolding px_def by code_simp
  have ho: "\<forall>p \<in> set po. snd (snd (snd p)) = snd (snd (0 :: nat, 0 :: nat, Mark_O))"
    unfolding po_def by code_simp
  have rx: "sort_key (\<lambda>x. fst (fst x))
       (filter (\<lambda>c. fst (snd c) = fst (0 :: nat, 0 :: nat, Mark_O)
                     \<and> fst (snd (snd c)) = fst (snd (0 :: nat, 0 :: nat, Mark_O)))
          (filter (\<lambda>poss. fst (fst poss) < 0)
             (map (\<lambda>q. ((get_value_mark grid_ops b1 (snd (fst q)) (fst (fst q)) Mark_X,
                          get_value_mark grid_ops b1 (snd (fst q)) (fst (fst q)) Mark_O),
                         (fst (fst q), snd (fst q),
                          if snd (snd (0 :: nat, 0 :: nat, Mark_O)) = Mark_X then Mark_O else Mark_X)))
                os))) = [((- 1, 2), (0, 0, Mark_X))]"
    unfolding b1_def os_def by code_simp
  have ro: "sort_key (\<lambda>c. snd (fst c))
       (filter (\<lambda>c. fst (snd c) = fst (0 :: nat, 0 :: nat, Mark_O)
                     \<and> fst (snd (snd c)) = fst (snd (0 :: nat, 0 :: nat, Mark_O)))
          (filter (\<lambda>poss. snd (fst poss) > 0)
             (map (\<lambda>q. ((get_value_mark grid_ops b1 (snd (fst q)) (fst (fst q)) Mark_X,
                          get_value_mark grid_ops b1 (snd (fst q)) (fst (fst q)) Mark_O),
                         (fst (fst q), snd (fst q),
                          if snd (snd (0 :: nat, 0 :: nat, Mark_O)) = Mark_X then Mark_O else Mark_X)))
                os))) = [((- 1, 2), (0, 0, Mark_X))]"
    unfolding b1_def os_def by code_simp
  have fx: "filter (\<lambda>c. fst (snd c) = 0 \<and> fst (snd (snd c)) = 0)
       (fst (next_poss_moves grid_ops b1 (0, 0, Mark_O) os px po)) = [((- 1, 2), (0, 0, Mark_X))]"
    using conjunct1 [OF conjunct2 [OF conjunct2 [OF t]]] hx rx by simp
  have fo: "filter (\<lambda>c. fst (snd c) = 0 \<and> fst (snd (snd c)) = 0)
       (snd (next_poss_moves grid_ops b1 (0, 0, Mark_O) os px po)) = [((- 1, 2), (0, 0, Mark_X))]"
    using conjunct2 [OF conjunct2 [OF conjunct2 [OF t]]] ho ro by simp
  show ?thesis using c w ix io fx fo unfolding px_def po_def b1_def os_def by blast
qed

text \<open>
  C7 as stated fails for the cell of the move: in that same position the cell \<open>(0, 0)\<close> just
  played is reported by \<^verbatim>\<open>update_board\<close>, its scores pass both sign tests, and it stands in both
  lists passed to the next ply, as a move of the minimizer.
\<close>

theorem played_cell_returns_counterexample:
  "((- 1, 2), (0, 0, Mark_O))
      \<in> set (move_order True (fst (cap_moves 20 (get_possible_moves grid_ops four_cells True)))
                (snd (cap_moves 20 (get_possible_moves grid_ops four_cells True)))) \<and>
   \<not> check_win grid_ops (fst (update_board grid_ops four_cells (0, 0, Mark_O))) (0, 0, Mark_O) \<and>
   ((- 1, 2), (0, 0, Mark_X))
      \<in> set (fst (next_poss_moves grid_ops (fst (update_board grid_ops four_cells (0, 0, Mark_O)))
               (0, 0, Mark_O) (snd (update_board grid_ops four_cells (0, 0, Mark_O)))
               (fst (cap_moves 20 (get_possible_moves grid_ops four_cells True)))
               (snd (cap_moves 20 (get_possible_moves grid_ops four_cells True))))) \<and>
   ((- 1, 2), (0, 0, Mark_X))
      \<in> set (snd (next_poss_moves grid_ops (fst (update_board grid_ops four_cells (0, 0, Mark_O)))
               (0, 0, Mark_O) (snd (update_board grid_ops four_cells (0, 0, Mark_O)))
               (fst (cap_moves 20 (get_possible_moves grid_ops four_cells True)))
               (snd (cap_moves 20 (get_possible_moves grid_ops four_cells True)))))"
proof -
  have c: "((- 1, 2), (0, 0, Mark_O))
      \<in> set (move_order True (fst (cap_moves 20 (get_possible_moves grid_ops four_cells True)))
                (snd (cap_moves 20 (get_possible_moves grid_ops four_cells True))))"
    by code_simp
  have w: "\<not> check_win grid_ops (fst (update_board grid_ops four_cells (0, 0, Mark_O)))
               (0, 0, Mark_O)"
    by code_simp
  have x: "((- 1, 2), (0, 0, Mark_X))
      \<in> set (fst (next_poss_moves grid_ops (fst (update_board grid_ops four_cells (0, 0, Mark_O)))
               (0, 0, Mark_O) (snd (update_board grid_ops four_cells (0, 0, Mark_O)))
               (fst (cap_moves 20 (get_possible_moves grid_ops four_cells True)))
               (snd (cap_moves 20 (get_possible_moves grid_ops four_cells True)))))"
    by code_simp
  have o: "((- 1, 2), (0, 0, Mark_X))
      \<in> set (snd (next_poss_moves grid_ops (fst (update_board grid_ops four_cells (0, 0, Mark_O)))
               (0, 0, Mark_O) (snd (update_board grid_ops four_cells (0, 0, Mark_O)))
               (fst (cap_moves 20 (get_possible_moves grid_ops four_cells True)))
               (snd (cap_moves 20 (get_possible_moves grid_ops four_cells True)))))"
    by code_simp
  show ?thesis using c w x o by blast
qed

text \<open>
  C10. In the lists for the next ply every entry carries the next mover's mark; the lists
  do not depend on \<^verbatim>\<open>check_legal\<close>; every cell reported by \<^verbatim>\<open>update_board\<close> enters the
  minimizer-favoring list when its first score is negative and the maximizer-favoring list
  when its second score is positive, whatever its owner. And there is a board where this
  puts a claimed cell into the lists: on \<open>two_cells\<close>, after the maximizer has played the
  cell \<open>(0, 0)\<close>, that cell is a candidate of the next ply under the mark \<^verbatim>\<open>'X'\<close>, and placing
  \<^verbatim>\<open>'X'\<close> there is not legal.
\<close>

theorem next_poss_moves_unchecked:
  fixes orig_states :: "((nat \<times> nat) \<times> 'u) list"
  shows
  "(\<forall>c \<in> set (fst (next_poss_moves ops b move orig_states poss_x poss_o))
           \<union> set (snd (next_poss_moves ops b move orig_states poss_x poss_o)).
      snd (snd (snd c)) = (if snd (snd move) = Mark_X then Mark_O else Mark_X)) \<and>
   next_poss_moves (ops\<lparr>check_legal := legal'\<rparr>) b move orig_states poss_x poss_o
     = next_poss_moves ops b move orig_states poss_x poss_o \<and>
   (\<forall>p \<in> set orig_states.
      (get_value_mark ops b (snd (fst p)) (fst (fst p)) Mark_X < 0 \<longrightarrow>
         ((get_value_mark ops b (snd (fst p)) (fst (fst p)) Mark_X,
           get_value_mark ops b (snd (fst p)) (fst (fst p)) Mark_O),
          (fst (fst p), snd (fst p), if snd (snd move) = Mark_X then Mark_O else Mark_X))
         \<in> set (fst (next_poss_moves ops b move orig_states poss_x poss_o))) \<and>
      (get_value_mark ops b (snd (fst p)) (fst (fst p)) Mark_O > 0 \<longrightarrow>
         ((get_value_mark ops b (snd (fst p)) (fst (fst p)) Mark_X,
           get_value_mark ops b (snd (fst p)) (fst (fst p)) Mark_O),
          (fst (fst p), snd (fst p), if snd (snd move) = Mark_X then Mark_O else Mark_X))
         \<in> set (snd (next_poss_moves ops b move orig_states poss_x poss_o)))) \<and>
   (((- 1, 2), (0, 0, Mark_X))
      \<in> set (fst (next_poss_moves grid_ops (fst (update_board grid_ops two_cells (0, 0, Mark_O)))
                  (0, 0, Mark_O) (snd (update_board grid_ops two_cells (0, 0, Mark_O)))
                  (fst (get_possible_moves grid_ops two_cells True))
                  (snd (get_possible_moves grid_ops two_cells True)))) \<and>
    \<not> check_legal grid_ops (fst (update_board grid_ops two_cells (0, 0, Mark_O)))
          (0, 0, Mark_X))"
proof (intro conjI ballI)
  fix c
  assume "c \<in> set (fst (next_poss_moves ops b move orig_states poss_x poss_o))
           \<union> set (snd (next_poss_moves ops b move orig_states poss_x poss_o))"
  then show "snd (snd (snd c)) = (if snd (snd move) = Mark_X then Mark_O else Mark_X)"
    by (rule next_poss_moves_mark)
next
  show "next_poss_moves (ops\<lparr>check_legal := legal'\<rparr>) b move orig_states poss_x poss_o
     = next_poss_moves ops b move orig_states poss_x poss_o"
    by (rule next_poss_moves_legal_irrelevant)
next
  fix p
  assume p: "p \<in> set orig_states"
  obtain tx ty u where pe: "p = ((tx, ty), u)" by (cases p) auto
  show "get_value_mark ops b (snd (fst p)) (fst (fst p)) Mark_X < 0 \<longrightarrow>
         ((get_value_mark ops b (snd (fst p)) (fst (fst p)) Mark_X,
           get_value_mark ops b (snd (fst p)) (fst (fst p)) Mark_O),
          (fst (fst p), snd (fst p), if snd (snd move) = Mark_X then Mark_O else Mark_X))
         \<in> set (fst (next_poss_moves ops b move orig_states poss_x poss_o))"
    using next_poss_moves_reported [of tx ty u orig_states ops b move poss_x poss_o] p
    unfolding pe by simp
  show "get_value_mark ops b (snd (fst p)) (fst (fst p)) Mark_O > 0 \<longrightarrow>
         ((get_value_mark ops b (snd (fst p)) (fst (fst p)) Mark_X,
           get_value_mark ops b (snd (fst p)) (fst (fst p)) Mark_O),
          (fst (fst p), snd (fst p), if snd (snd move) = Mark_X then Mark_O else Mark_X))
         \<in> set (snd (next_poss_moves ops b move orig_states poss_x poss_o))"
    using next_poss_moves_reported [of tx ty u orig_states ops b move poss_x poss_o] p
    unfolding pe by simp
next
  show "((- 1, 2), (0, 0, Mark_X))
      \<in> set (fst (next_poss_moves grid_ops (fst (update_board grid_ops two_cells (0, 0, Mark_O)))
                  (0, 0, Mark_O) (snd (update_board grid_ops two_cells (0, 0, Mark_O)))
                  (fst (get_possible_moves grid_ops two_cells True))
                  (snd (get_possible_moves grid_ops two_cells True))))"
    by code_simp
next
  show "\<not> check_legal grid_ops (fst (update_board grid_ops two_cells (0, 0, Mark_O)))
          (0, 0, Mark_X)"
    by code_simp
qed

text \<open>
  The cell \<open>(0, 0)\<close> of \<open>two_cells\<close>, reported by \<^verbatim>\<open>update_board\<close> with a negative first score,
  in the list for the next ply.
\<close>

theorem next_poss_moves_unchecked_witness:
  "((- 1, 2), (0, 0, Mark_X))
      \<in> set (fst (next_poss_moves grid_ops (fst (update_board grid_ops two_cells (0, 0, Mark_O)))
                  (0, 0, Mark_O) (snd (update_board grid_ops two_cells (0, 0, Mark_O)))
                  (fst (get_possible_moves grid_ops two_cells True))
                  (snd (get_possible_moves grid_ops two_cells True)))) \<and>
   snd (snd (snd (((- 1, 2), (0, 0, Mark_X)) :: cand))) = Mark_X \<and>
   ((0, 0), free (- 1) 2) \<in> set (snd (update_board grid_ops two_cells (0, 0, Mark_O))) \<and>
   get_value_mark grid_ops (fst (update_board grid_ops two_cells (0, 0, Mark_O))) 0 0 Mark_X < 0"
proof -
  note t = next_poss_moves_unchecked [of grid_ops
      "fst (update_board grid_ops two_cells (0, 0, Mark_O))" "(0, 0, Mark_O)"
      "snd (update_board grid_ops two_cells (0, 0, Mark_O))"
      "fst (get_possible_moves grid_ops two_cells True)"
      "snd (get_possible_moves grid_ops two_cells True)" grid_legal]
  have p: "((0, 0), free (- 1) 2) \<in> set (snd (update_board grid_ops two_cells (0, 0, Mark_O)))"
    by code_simp
  have v: "get_value_mark grid_ops (fst (update_board grid_ops two_cells (0, 0, Mark_O))) 0 0 Mark_X
             < 0"
    by code_simp
  have m: "((- 1, 2), (0, 0, Mark_X))
      \<in> set (fst (next_poss_moves grid_ops (fst (update_board grid_ops two_cells (0, 0, Mark_O)))
                  (0, 0, Mark_O) (snd (update_board grid_ops two_cells (0, 0, Mark_O)))
                  (fst (get_possible_moves grid_ops two_cells True))
                  (snd (get_possible_moves grid_ops two_cells True))))"
    using t by blast
  have k: "snd (snd (snd (((- 1, 2), (0, 0, Mark_X)) :: cand))) = Mark_X"
    by simp
  show ?thesis using p v m k by blast
qed

subsection \<open>Move enumeration\<close>

lemma possible_moves_set:
  "set (concat (map (\<lambda>tile_y.
              concat (map (\<lambda>tile_x.
                if check_legal ops b (tile_x, tile_y, mark) then
                  (let score_X = get_value_mark ops b tile_y tile_x Mark_X;
                       score_O = get_value_mark ops b tile_y tile_x Mark_O
                   in if score_X \<noteq> 0 \<or> score_O \<noteq> 0
                      then [((score_X, score_O), (tile_x, tile_y, mark))] else [])
                else [])
              [0 ..< length (tiles ops b ! tile_y)]))
            [0 ..< length (tiles ops b)]))
   = {c. \<exists>tile_x tile_y. tile_y < length (tiles ops b) \<and> tile_x < length (tiles ops b ! tile_y) \<and>
           check_legal ops b (tile_x, tile_y, mark) \<and>
           c = ((get_value_mark ops b tile_y tile_x Mark_X, get_value_mark ops b tile_y tile_x Mark_O),
                (tile_x, tile_y, mark)) \<and>
           (get_value_mark ops b tile_y tile_x Mark_X \<noteq> 0 \<or> get_value_mark ops b tile_y tile_x Mark_O \<noteq> 0)}"
  by (auto simp add: Let_def split: if_splits)

text \<open>
  C8. \<^verbatim>\<open>get_possible_moves\<close> returns the pair (minimizer-favoring list, maximizer-favoring
  list). The first holds exactly the cells of the board on which the side's mark is legal
  and whose first score is negative, each with its two scores and the side's mark, in
  ascending order of the first score; the second holds exactly the legal cells whose second
  score is positive, in ascending order of the second score; no entry has the scores
  \<open>(0, 0)\<close>. The function reads the board through \<^verbatim>\<open>check_legal\<close> and \<^verbatim>\<open>get_value_mark\<close>
  only and returns nothing but the two lists, so the board is the same afterwards.
\<close>

theorem get_possible_moves_spec:
  "(\<forall>c. c \<in> set (fst (get_possible_moves ops b maximizer)) \<longleftrightarrow>
      (\<exists>tile_x tile_y. tile_y < length (tiles ops b) \<and> tile_x < length (tiles ops b ! tile_y) \<and>
         check_legal ops b (tile_x, tile_y, if maximizer then Mark_O else Mark_X) \<and>
         c = ((get_value_mark ops b tile_y tile_x Mark_X, get_value_mark ops b tile_y tile_x Mark_O),
              (tile_x, tile_y, if maximizer then Mark_O else Mark_X)) \<and>
         get_value_mark ops b tile_y tile_x Mark_X < 0)) \<and>
   (\<forall>c. c \<in> set (snd (get_possible_moves ops b maximizer)) \<longleftrightarrow>
      (\<exists>tile_x tile_y. tile_y < length (tiles ops b) \<and> tile_x < length (tiles ops b ! tile_y) \<and>
         check_legal ops b (tile_x, tile_y, if maximizer then Mark_O else Mark_X) \<and>
         c = ((get_value_mark ops b tile_y tile_x Mark_X, get_value_mark ops b tile_y tile_x Mark_O),
              (tile_x, tile_y, if maximizer then Mark_O else Mark_X)) \<and>
         get_value_mark ops b tile_y tile_x Mark_O > 0)) \<and>
   (\<forall>c \<in> set (fst (get_possible_moves ops b maximizer))
          \<union> set (snd (get_possible_moves ops b maximizer)). fst c \<noteq> (0, 0)) \<and>
   sorted (map (\<lambda>c. fst (fst c)) (fst (get_possible_moves ops b maximizer))) \<and>
   sorted (map (\<lambda>c. snd (fst c)) (snd (get_possible_moves ops b maximizer)))"
proof -
  define mark where "mark = (if maximizer then Mark_O else Mark_X)"
  define pm where "pm = concat (map (\<lambda>tile_y.
              concat (map (\<lambda>tile_x.
                if check_legal ops b (tile_x, tile_y, mark) then
                  (let score_X = get_value_mark ops b tile_y tile_x Mark_X;
                       score_O = get_value_mark ops b tile_y tile_x Mark_O
                   in if score_X \<noteq> 0 \<or> score_O \<noteq> 0
                      then [((score_X, score_O), (tile_x, tile_y, mark))] else [])
                else [])
              [0 ..< length (tiles ops b ! tile_y)]))
            [0 ..< length (tiles ops b)])"
  have g: "get_possible_moves ops b maximizer
      = (sort_key (\<lambda>x. fst (fst x)) (filter (\<lambda>move. fst (fst move) < 0) pm),
         sort_key (\<lambda>c. snd (fst c)) (filter (\<lambda>move. snd (fst move) > 0) pm))"
    unfolding get_possible_moves_def Let_def pm_def mark_def by simp
  have s: "set pm = {c. \<exists>tile_x tile_y. tile_y < length (tiles ops b) \<and> tile_x < length (tiles ops b ! tile_y) \<and>
           check_legal ops b (tile_x, tile_y, mark) \<and>
           c = ((get_value_mark ops b tile_y tile_x Mark_X, get_value_mark ops b tile_y tile_x Mark_O),
                (tile_x, tile_y, mark)) \<and>
           (get_value_mark ops b tile_y tile_x Mark_X \<noteq> 0 \<or> get_value_mark ops b tile_y tile_x Mark_O \<noteq> 0)}"
    unfolding pm_def by (rule possible_moves_set)
  have 1: "\<forall>c. c \<in> set (fst (get_possible_moves ops b maximizer)) \<longleftrightarrow>
      (\<exists>tile_x tile_y. tile_y < length (tiles ops b) \<and> tile_x < length (tiles ops b ! tile_y) \<and>
         check_legal ops b (tile_x, tile_y, mark) \<and>
         c = ((get_value_mark ops b tile_y tile_x Mark_X, get_value_mark ops b tile_y tile_x Mark_O),
              (tile_x, tile_y, mark)) \<and>
         get_value_mark ops b tile_y tile_x Mark_X < 0)"
    unfolding g by (simp add: s) fastforce
  have 2: "\<forall>c. c \<in> set (snd (get_possible_moves ops b maximizer)) \<longleftrightarrow>
      (\<exists>tile_x tile_y. tile_y < length (tiles ops b) \<and> tile_x < length (tiles ops b ! tile_y) \<and>
         check_legal ops b (tile_x, tile_y, mark) \<and>
         c = ((get_value_mark ops b tile_y tile_x Mark_X, get_value_mark ops b tile_y tile_x Mark_O),
              (tile_x, tile_y, mark)) \<and>
         get_value_mark ops b tile_y tile_x Mark_O > 0)"
    unfolding g by (simp add: s) fastforce
  have 3: "\<forall>c \<in> set (fst (get_possible_moves ops b maximizer))
          \<union> set (snd (get_possible_moves ops b maximizer)). fst c \<noteq> (0, 0)"
    unfolding g by auto
  have 4: "sorted (map (\<lambda>c. fst (fst c)) (fst (get_possible_moves ops b maximizer)))"
    unfolding g by simp
  have 5: "sorted (map (\<lambda>c. snd (fst c)) (snd (get_possible_moves ops b maximizer)))"
    unfolding g by simp
  show ?thesis using 1 2 3 4 5 unfolding mark_def by blast
qed


text \<open>On \<open>two_cells\<close> the cell \<open>(1, 0)\<close> is a legal, minimizer-favoring candidate.\<close>

theorem get_possible_moves_spec_witness:
  "((- 3, 1), (1, 0, Mark_O)) \<in> set (fst (get_possible_moves grid_ops two_cells True)) \<and>
   fst (((- 3, 1), (1, 0, Mark_O)) :: cand) \<noteq> (0, 0) \<and>
   (\<exists>tile_x tile_y. tile_y < length (tiles grid_ops two_cells) \<and>
      tile_x < length (tiles grid_ops two_cells ! tile_y) \<and>
      check_legal grid_ops two_cells (tile_x, tile_y, Mark_O) \<and>
      (((- 3, 1), (1, 0, Mark_O)) :: cand)
        = ((get_value_mark grid_ops two_cells tile_y tile_x Mark_X,
            get_value_mark grid_ops two_cells tile_y tile_x Mark_O), (tile_x, tile_y, Mark_O)) \<and>
      get_value_mark grid_ops two_cells tile_y tile_x Mark_X < 0)"
proof -
  have m: "((- 3, 1), (1, 0, Mark_O)) \<in> set (fst (get_possible_moves grid_ops two_cells True))"
    by code_simp
  show ?thesis
    using m get_possible_moves_spec [of grid_ops two_cells True]
    by (simp del: One_nat_def)
qed

subsection \<open>The loop, one candidate at a time\<close>

lemma minimax_loop_Cons:
  "minimax_loop fuel ops st maximizer depth poss_x poss_o (cand # rest) choices
       max_worst min_worst =
     (if check_win ops (board (played ops st (snd cand))) (snd cand) then
        (unplayed ops st (played ops st (snd cand)) (snd cand),
         Inr (snd cand, if \<not> maximizer then NegInf else PosInf))
      else
        (case nxt_ply fuel ops st maximizer depth poss_x poss_o (snd cand) max_worst min_worst of
           (st2, Inl e) \<Rightarrow> (st2, Inl e)
         | (st2, Inr (_, nxt_ply_score)) \<Rightarrow>
             if cutoff maximizer nxt_ply_score max_worst min_worst
             then (unplayed ops st st2 (snd cand),
                   best_choice maximizer (choices @ [(snd cand, nxt_ply_score)]))
             else minimax_loop fuel ops (unplayed ops st st2 (snd cand)) maximizer depth
                    poss_x poss_o rest (choices @ [(snd cand, nxt_ply_score)])
                    (new_max_worst maximizer nxt_ply_score max_worst)
                    (new_min_worst maximizer nxt_ply_score min_worst)))"
  by (simp add: Let_def played_def unplayed_def nxt_ply_def split: prod.splits sum.splits)

declare minimax_loop.simps(2) [simp del]


subsection \<open>The board after a search\<close>

lemma board_played: "board (played ops st move) = fst (update_board ops (board st) move)"
  by (simp add: played_def)

lemma undo_exactD:
  "undo_exact ops \<Longrightarrow>
     undo_change ops (fst (update_board ops b move)) (snd (update_board ops b move)) move = b"
  unfolding undo_exact_def by blast

lemma board_unplayed:
  "undo_exact ops \<Longrightarrow> board st2 = board (played ops st move)
     \<Longrightarrow> board (unplayed ops st st2 move) = board st"
  by (simp add: unplayed_def played_def undo_exactD)

lemma minimax_Suc:
  "minimax (Suc fuel) ops st maximizer depth branch_factor poss_moves max_worst min_worst =
     minimax_loop fuel ops st maximizer depth (fst (cap_moves branch_factor poss_moves))
       (snd (cap_moves branch_factor poss_moves))
       (move_order maximizer (fst (cap_moves branch_factor poss_moves))
          (snd (cap_moves branch_factor poss_moves)))
       [] max_worst min_worst"
  by simp

lemma nxt_ply_board:
  assumes IH: "\<forall>st maximizer depth branch_factor poss_moves max_worst min_worst st' r.
           minimax fuel ops st maximizer depth branch_factor poss_moves max_worst min_worst
             = (st', Inr r) \<longrightarrow> board st' = board st"
    and "nxt_ply fuel ops st maximizer depth poss_x poss_o move max_worst min_worst = (st2, Inr r)"
  shows "board st2 = board (played ops st move)"
proof (cases "depth = 1")
  case True
  then show ?thesis using assms(2) by (auto simp add: nxt_ply_def)
next
  case False
  then have "minimax fuel ops (played ops st move) (\<not> maximizer) (depth - 1) 10
             (next_poss_moves ops (board (played ops st move)) move
                (snd (update_board ops (board st) move)) poss_x poss_o)
             max_worst min_worst = (st2, Inr r)"
    using assms(2) by (simp add: nxt_ply_def)
  then show ?thesis using IH by blast
qed

lemma minimax_loop_board:
  assumes ue: "undo_exact ops"
    and IH: "\<forall>st maximizer depth branch_factor poss_moves max_worst min_worst st' r.
           minimax fuel ops st maximizer depth branch_factor poss_moves max_worst min_worst
             = (st', Inr r) \<longrightarrow> board st' = board st"
  shows "minimax_loop fuel ops st maximizer depth poss_x poss_o poss choices max_worst min_worst
           = (st', Inr r) \<Longrightarrow> board st' = board st"
proof (induction poss arbitrary: st choices max_worst min_worst)
  case Nil
  then show ?case by simp
next
  case (Cons cand rest)
  let ?move = "snd cand"
  show ?case
  proof (cases "check_win ops (board (played ops st ?move)) ?move")
    case True
    then have "st' = unplayed ops st (played ops st ?move) ?move"
      using Cons.prems by (simp add: minimax_loop_Cons)
    then show ?thesis using board_unplayed [OF ue] by simp
  next
    case nowin: False
    obtain st2 res where np:
      "nxt_ply fuel ops st maximizer depth poss_x poss_o ?move max_worst min_worst = (st2, res)"
      by (cases "nxt_ply fuel ops st maximizer depth poss_x poss_o ?move max_worst min_worst")
    show ?thesis
    proof (cases res)
      case (Inl e)
      then show ?thesis using Cons.prems nowin np by (simp add: minimax_loop_Cons)
    next
      case (Inr ms)
      obtain m s where ms: "ms = (m, s)" by (cases ms)
      have b2: "board st2 = board (played ops st ?move)"
        using nxt_ply_board [OF IH, of st maximizer depth poss_x poss_o ?move max_worst min_worst
            st2 ms] np Inr by simp
      have b3: "board (unplayed ops st st2 ?move) = board st"
        by (rule board_unplayed [OF ue b2])
      show ?thesis
      proof (cases "cutoff maximizer s max_worst min_worst")
        case True
        then have "st' = unplayed ops st st2 ?move"
          using Cons.prems nowin np Inr ms by (simp add: minimax_loop_Cons)
        then show ?thesis using b3 by simp
      next
        case False
        then have "minimax_loop fuel ops (unplayed ops st st2 ?move) maximizer depth
                    poss_x poss_o rest (choices @ [(?move, s)])
                    (new_max_worst maximizer s max_worst)
                    (new_min_worst maximizer s min_worst) = (st', Inr r)"
          using Cons.prems nowin np Inr ms by (simp add: minimax_loop_Cons)
        then have "board st' = board (unplayed ops st st2 ?move)" by (rule Cons.IH)
        then show ?thesis using b3 by simp
      qed
    qed
  qed
qed

lemma minimax_board:
  assumes ue: "undo_exact ops"
  shows "minimax fuel ops st maximizer depth branch_factor poss_moves max_worst min_worst
           = (st', Inr r) \<Longrightarrow> board st' = board st"
proof (induction fuel arbitrary: st maximizer depth branch_factor poss_moves max_worst min_worst st' r)
  case 0
  then show ?case by simp
next
  case (Suc fuel)
  have IH: "\<forall>st maximizer depth branch_factor poss_moves max_worst min_worst st' r.
           minimax fuel ops st maximizer depth branch_factor poss_moves max_worst min_worst
             = (st', Inr r) \<longrightarrow> board st' = board st"
    using Suc.IH by blast
  show ?case
    using Suc.prems unfolding minimax_Suc
    by (rule minimax_loop_board [OF ue IH])
qed


text \<open>
  C1. When \<^verbatim>\<open>undo_change\<close> exactly reverses \<^verbatim>\<open>update_board\<close>, every call of \<^verbatim>\<open>minimax\<close> and
  every call of \<^verbatim>\<open>get_move\<close> that returns normally leaves the board as it found it: on the
  return of a win, at the end of the loop and after a cutoff.
\<close>

theorem search_restores_board:
  "undo_exact ops \<Longrightarrow>
     (\<forall>st' r. minimax fuel ops st maximizer depth branch_factor poss_moves max_worst min_worst
                = (st', Inr r) \<longrightarrow> board st' = board st) \<and>
     (\<forall>st' move. get_move fuel ops self_mark st depth branch_factor = (st', Inr move)
                \<longrightarrow> board st' = board st)"
proof -
  assume ue: "undo_exact ops"
  have 1: "\<forall>st' r. minimax fuel ops st maximizer depth branch_factor poss_moves max_worst min_worst
                = (st', Inr r) \<longrightarrow> board st' = board st"
    using minimax_board [OF ue] by blast
  have 2: "\<forall>st' move. get_move fuel ops self_mark st depth branch_factor = (st', Inr move)
                \<longrightarrow> board st' = board st"
  proof (intro allI impI)
    fix st' move
    assume g: "get_move fuel ops self_mark st depth branch_factor = (st', Inr move)"
    obtain st2 res where m: "minimax fuel ops st (self_mark = Mark_O) depth branch_factor
        (slice_to (fst (get_possible_moves ops (board st) (self_mark = Mark_O)))
           (branch_factor div 2),
         slice_from (snd (get_possible_moves ops (board st) (self_mark = Mark_O)))
           ((- branch_factor) div 2)) NegInf PosInf = (st2, res)"
      by (cases "minimax fuel ops st (self_mark = Mark_O) depth branch_factor
        (slice_to (fst (get_possible_moves ops (board st) (self_mark = Mark_O)))
           (branch_factor div 2),
         slice_from (snd (get_possible_moves ops (board st) (self_mark = Mark_O)))
           ((- branch_factor) div 2)) NegInf PosInf")
    from g m obtain sc where r: "res = Inr (move, sc)" and s: "st' = st2\<lparr>minimax_stack_depth := 0\<rparr>"
      by (auto simp add: get_move_def Let_def split: sum.splits prod.splits)
    have "board st2 = board st" using minimax_board [OF ue] m r by blast
    then show "board st' = board st" using s by simp
  qed
  show ?thesis using 1 2 by blast
qed

text \<open>A search of depth 2 on \<open>four_cells\<close> returns a move, and the board is as before.\<close>

theorem search_restores_board_witness:
  "undo_exact grid_ops \<and>
   snd (get_move 2 grid_ops Mark_O (on_board four_cells) 2 20) = Inr (0, 0, Mark_O) \<and>
   board (fst (get_move 2 grid_ops Mark_O (on_board four_cells) 2 20)) = four_cells"
proof -
  have e: "snd (get_move 2 grid_ops Mark_O (on_board four_cells) 2 20) = Inr (0, 0, Mark_O)"
    by code_simp
  then have g: "get_move 2 grid_ops Mark_O (on_board four_cells) 2 20
          = (fst (get_move 2 grid_ops Mark_O (on_board four_cells) 2 20), Inr (0, 0, Mark_O))"
    by (simp add: prod_eq_iff)
  have "board (fst (get_move 2 grid_ops Mark_O (on_board four_cells) 2 20))
          = board (on_board four_cells)"
    using search_restores_board [OF grid_undo_exact, of 2 "on_board four_cells" True 2 20
        "([], [])" NegInf PosInf Mark_O] g
    by blast
  then show ?thesis using e grid_undo_exact by (simp add: on_board_def)
qed

subsection \<open>A candidate that wins\<close>

text \<open>
  With the bounds at minus and plus infinity the cutoff never fires at a node: the bound of
  the side that is not to move stays where it was. So the loop tries the candidates one after
  the other until one of them wins.
\<close>

lemma no_cutoff_unbounded:
  "(if maximizer then min_worst = PosInf else max_worst = NegInf) \<Longrightarrow>
     \<not> cutoff maximizer s max_worst min_worst"
  by (cases s) (auto simp add: cutoff_def less_score_def less_eq_score_def)

lemma unbounded_kept:
  "(if maximizer then min_worst = PosInf else max_worst = NegInf) \<Longrightarrow>
     (if maximizer then new_min_worst maximizer s min_worst = PosInf
      else new_max_worst maximizer s max_worst = NegInf)"
  by (simp add: new_max_worst_def new_min_worst_def)

lemma loop_first_win:
  assumes ue: "undo_exact ops"
  shows "(if maximizer then min_worst = PosInf else max_worst = NegInf) \<Longrightarrow>
     \<forall>c \<in> set pre. \<not> check_win ops (fst (update_board ops (board st) (snd c))) (snd c) \<Longrightarrow>
     check_win ops (fst (update_board ops (board st) (snd cand))) (snd cand) \<Longrightarrow>
     minimax_loop fuel ops st maximizer depth poss_x poss_o (pre @ cand # rest) choices
         max_worst min_worst = (st', Inr r) \<Longrightarrow>
     r = (snd cand, if maximizer then PosInf else NegInf) \<and> board st' = board st"
proof (induction pre arbitrary: st choices max_worst min_worst)
  case Nil
  have w: "check_win ops (board (played ops st (snd cand))) (snd cand)"
    using Nil.prems(3) by (simp add: board_played)
  have "st' = unplayed ops st (played ops st (snd cand)) (snd cand)"
    and "r = (snd cand, if maximizer then PosInf else NegInf)"
    using Nil.prems(4) w by (auto simp add: minimax_loop_Cons)
  then show ?case using board_unplayed [OF ue] by simp
next
  case (Cons c pre)
  let ?move = "snd c"
  have nowin: "\<not> check_win ops (board (played ops st ?move)) ?move"
    using Cons.prems(2) by (simp add: board_played)
  obtain st2 res where np:
    "nxt_ply fuel ops st maximizer depth poss_x poss_o ?move max_worst min_worst = (st2, res)"
    by (cases "nxt_ply fuel ops st maximizer depth poss_x poss_o ?move max_worst min_worst")
  show ?case
  proof (cases res)
    case (Inl e)
    then show ?thesis using Cons.prems(4) nowin np by (simp add: minimax_loop_Cons)
  next
    case (Inr ms)
    obtain m s where ms: "ms = (m, s)" by (cases ms)
    have IHp: "\<forall>st maximizer depth branch_factor poss_moves max_worst min_worst st' r.
           minimax fuel ops st maximizer depth branch_factor poss_moves max_worst min_worst
             = (st', Inr r) \<longrightarrow> board st' = board st"
      using minimax_board [OF ue] by blast
    have b2: "board st2 = board (played ops st ?move)"
      using nxt_ply_board [OF IHp, of st maximizer depth poss_x poss_o ?move max_worst min_worst
          st2 ms] np Inr by simp
    have b3: "board (unplayed ops st st2 ?move) = board st"
      by (rule board_unplayed [OF ue b2])
    have nc: "\<not> cutoff maximizer s max_worst min_worst"
      by (rule no_cutoff_unbounded [OF Cons.prems(1)])
    have step: "minimax_loop fuel ops (unplayed ops st st2 ?move) maximizer depth
                    poss_x poss_o (pre @ cand # rest) (choices @ [(?move, s)])
                    (new_max_worst maximizer s max_worst)
                    (new_min_worst maximizer s min_worst) = (st', Inr r)"
      using Cons.prems(4) nowin np Inr ms nc by (simp add: minimax_loop_Cons)
    have pre': "\<forall>c \<in> set pre. \<not> check_win ops
            (fst (update_board ops (board (unplayed ops st st2 ?move)) (snd c))) (snd c)"
      using Cons.prems(2) b3 by simp
    have win': "check_win ops
            (fst (update_board ops (board (unplayed ops st st2 ?move)) (snd cand))) (snd cand)"
      using Cons.prems(3) b3 by simp
    have "r = (snd cand, if maximizer then PosInf else NegInf) \<and>
          board st' = board (unplayed ops st st2 ?move)"
      by (rule Cons.IH [OF unbounded_kept [OF Cons.prems(1)] pre' win' step])
    then show ?thesis using b3 by simp
  qed
qed

lemma loop_first_win_depth1:
  assumes ue: "undo_exact ops"
  shows "(if maximizer then min_worst = PosInf else max_worst = NegInf) \<Longrightarrow>
     \<forall>c \<in> set pre. \<not> check_win ops (fst (update_board ops (board st) (snd c))) (snd c) \<Longrightarrow>
     check_win ops (fst (update_board ops (board st) (snd cand))) (snd cand) \<Longrightarrow>
     \<exists>st'. minimax_loop fuel ops st maximizer 1 poss_x poss_o (pre @ cand # rest) choices
         max_worst min_worst = (st', Inr (snd cand, if maximizer then PosInf else NegInf)) \<and>
       board st' = board st \<and>
       minimax_stack_depth st' = minimax_stack_depth st + length pre + 1"
proof (induction pre arbitrary: st choices max_worst min_worst)
  case Nil
  have w: "check_win ops (board (played ops st (snd cand))) (snd cand)"
    using Nil.prems(3) by (simp add: board_played)
  have b: "board (unplayed ops st (played ops st (snd cand)) (snd cand)) = board st"
    using board_unplayed [OF ue] by simp
  have k: "minimax_stack_depth (unplayed ops st (played ops st (snd cand)) (snd cand))
             = minimax_stack_depth st + 1"
    by (simp add: unplayed_def played_def)
  show ?case using w b k by (simp add: minimax_loop_Cons)
next
  case (Cons c pre)
  let ?move = "snd c"
  let ?st3 = "unplayed ops st (played ops st ?move) ?move"
  let ?s = "score_board ops (board (played ops st ?move))"
  have nowin: "\<not> check_win ops (board (played ops st ?move)) ?move"
    using Cons.prems(2) by (simp add: board_played)
  have np: "nxt_ply fuel ops st maximizer 1 poss_x poss_o ?move max_worst min_worst
              = (played ops st ?move, Inr (?move, ?s))"
    by (simp add: nxt_ply_def)
  have b3: "board ?st3 = board st"
    using board_unplayed [OF ue] by simp
  have k: "minimax_stack_depth ?st3 = minimax_stack_depth st + 1"
    by (simp add: unplayed_def played_def)
  have nc: "\<not> cutoff maximizer ?s max_worst min_worst"
    by (rule no_cutoff_unbounded [OF Cons.prems(1)])
  have step: "minimax_loop fuel ops st maximizer 1 poss_x poss_o ((c # pre) @ cand # rest)
                 choices max_worst min_worst
              = minimax_loop fuel ops ?st3 maximizer 1 poss_x poss_o (pre @ cand # rest)
                  (choices @ [(?move, ?s)]) (new_max_worst maximizer ?s max_worst)
                  (new_min_worst maximizer ?s min_worst)"
    using nowin np nc by (simp add: minimax_loop_Cons)
  have pre': "\<forall>c \<in> set pre. \<not> check_win ops
            (fst (update_board ops (board ?st3) (snd c))) (snd c)"
    using Cons.prems(2) b3 by simp
  have win': "check_win ops (fst (update_board ops (board ?st3) (snd cand))) (snd cand)"
    using Cons.prems(3) b3 by simp
  obtain st' where
    "minimax_loop fuel ops ?st3 maximizer 1 poss_x poss_o (pre @ cand # rest)
        (choices @ [(?move, ?s)]) (new_max_worst maximizer ?s max_worst)
        (new_min_worst maximizer ?s min_worst)
       = (st', Inr (snd cand, if maximizer then PosInf else NegInf))"
    and "board st' = board ?st3"
    and "minimax_stack_depth st' = minimax_stack_depth ?st3 + length pre + 1"
    using Cons.IH [OF unbounded_kept [OF Cons.prems(1)] pre' win'] by blast
  then show ?case unfolding step using b3 k by simp
qed

text \<open>
  C2, as the code has it. Let the exploration order of a node (the capped lists, interleaved)
  be \<open>pre @ cand # rest\<close>, where the move of \<open>cand\<close> completes a win and no move of \<open>pre\<close>
  does, so that \<open>cand\<close> is the first winning candidate of the order. Then, under an exact
  \<^verbatim>\<open>undo_change\<close>, a call of \<^verbatim>\<open>minimax\<close> with the bounds minus and plus infinity that returns a
  value, at any depth, returns the move of \<open>cand\<close> with plus infinity when the maximizer is to
  move and minus infinity otherwise, on the board it was given. At depth 1 the call does
  return, and it has applied \<open>length pre + 1\<close> moves: no candidate behind \<open>cand\<close> is tried.
  And at the candidate itself the loop, whatever its depth, bounds and collected choices,
  undoes the move and returns at once, without a recursive call.
\<close>

theorem winning_candidate_returned:
  "undo_exact ops \<Longrightarrow>
   move_order maximizer (fst (cap_moves branch_factor poss_moves))
       (snd (cap_moves branch_factor poss_moves)) = pre @ cand # rest \<Longrightarrow>
   \<forall>c \<in> set pre. \<not> check_win ops (fst (update_board ops (board st) (snd c))) (snd c) \<Longrightarrow>
   check_win ops (fst (update_board ops (board st) (snd cand))) (snd cand) \<Longrightarrow>
   (\<forall>st' r. minimax (Suc fuel) ops st maximizer depth branch_factor poss_moves NegInf PosInf
              = (st', Inr r) \<longrightarrow>
            r = (snd cand, if maximizer then PosInf else NegInf) \<and> board st' = board st) \<and>
   (depth = 1 \<longrightarrow>
      (\<exists>st'. minimax (Suc fuel) ops st maximizer depth branch_factor poss_moves NegInf PosInf
              = (st', Inr (snd cand, if maximizer then PosInf else NegInf)) \<and>
            board st' = board st \<and>
            minimax_stack_depth st' = minimax_stack_depth st + length pre + 1)) \<and>
   (\<forall>fuel' depth' poss_x poss_o rest' choices max_worst min_worst.
      minimax_loop fuel' ops st maximizer depth' poss_x poss_o (cand # rest') choices
          max_worst min_worst
        = (st\<lparr>minimax_stack_depth := minimax_stack_depth st + 1,
              board := undo_change ops (fst (update_board ops (board st) (snd cand)))
                         (snd (update_board ops (board st) (snd cand))) (snd cand)\<rparr>,
           Inr (snd cand, if maximizer then PosInf else NegInf)))"
proof -
  assume ue: "undo_exact ops"
    and ord: "move_order maximizer (fst (cap_moves branch_factor poss_moves))
       (snd (cap_moves branch_factor poss_moves)) = pre @ cand # rest"
    and pre: "\<forall>c \<in> set pre.
       \<not> check_win ops (fst (update_board ops (board st) (snd c))) (snd c)"
    and win: "check_win ops (fst (update_board ops (board st) (snd cand))) (snd cand)"
  have ub: "if maximizer then PosInf = PosInf else NegInf = NegInf" by simp
  have 1: "\<forall>st' r. minimax (Suc fuel) ops st maximizer depth branch_factor poss_moves
              NegInf PosInf = (st', Inr r) \<longrightarrow>
            r = (snd cand, if maximizer then PosInf else NegInf) \<and> board st' = board st"
    unfolding minimax_Suc ord using loop_first_win [OF ue ub pre win] by blast
  have 2: "depth = 1 \<longrightarrow>
      (\<exists>st'. minimax (Suc fuel) ops st maximizer depth branch_factor poss_moves NegInf PosInf
              = (st', Inr (snd cand, if maximizer then PosInf else NegInf)) \<and>
            board st' = board st \<and>
            minimax_stack_depth st' = minimax_stack_depth st + length pre + 1)"
    unfolding minimax_Suc ord using loop_first_win_depth1 [OF ue ub pre win] by blast
  have 3: "\<forall>fuel' depth' poss_x poss_o rest' choices max_worst min_worst.
      minimax_loop fuel' ops st maximizer depth' poss_x poss_o (cand # rest') choices
          max_worst min_worst
        = (st\<lparr>minimax_stack_depth := minimax_stack_depth st + 1,
              board := undo_change ops (fst (update_board ops (board st) (snd cand)))
                         (snd (update_board ops (board st) (snd cand))) (snd cand)\<rparr>,
           Inr (snd cand, if maximizer then PosInf else NegInf))"
    using win by (simp add: minimax_loop_Cons played_def unplayed_def)
  show ?thesis using 1 2 3 by blast
qed

text \<open>
  On \<open>win_board\<close> with the branch factor 20 the maximizer explores the cell \<open>(1, 1)\<close> twice and
  then the cell \<open>(1, 0)\<close>, which completes its column: the searches of depth 2 and of depth 1
  both return \<open>(1, 0)\<close> with plus infinity, the latter after three moves.
\<close>

theorem winning_candidate_returned_witness:
  "undo_exact grid_ops \<and>
   move_order True (fst (cap_moves 20 (get_possible_moves grid_ops win_board True)))
       (snd (cap_moves 20 (get_possible_moves grid_ops win_board True)))
     = [((- 5, 5), (1, 1, Mark_O)), ((- 5, 5), (1, 1, Mark_O))]
         @ ((- 1, 1), (1, 0, Mark_O)) # [((- 1, 1), (1, 0, Mark_O))] \<and>
   \<not> check_win grid_ops (fst (update_board grid_ops win_board (1, 1, Mark_O))) (1, 1, Mark_O) \<and>
   check_win grid_ops (fst (update_board grid_ops win_board (1, 0, Mark_O))) (1, 0, Mark_O) \<and>
   snd (minimax 2 grid_ops (on_board win_board) True 2 20
          (get_possible_moves grid_ops win_board True) NegInf PosInf)
     = Inr ((1, 0, Mark_O), PosInf) \<and>
   board (fst (minimax 2 grid_ops (on_board win_board) True 2 20
          (get_possible_moves grid_ops win_board True) NegInf PosInf)) = win_board \<and>
   snd (minimax 1 grid_ops (on_board win_board) True 1 20
          (get_possible_moves grid_ops win_board True) NegInf PosInf)
     = Inr ((1, 0, Mark_O), PosInf) \<and>
   minimax_stack_depth (fst (minimax 1 grid_ops (on_board win_board) True 1 20
          (get_possible_moves grid_ops win_board True) NegInf PosInf)) = 3"
proof -
  have ord: "move_order True (fst (cap_moves 20 (get_possible_moves grid_ops win_board True)))
       (snd (cap_moves 20 (get_possible_moves grid_ops win_board True)))
     = [((- 5, 5), (1, 1, Mark_O)), ((- 5, 5), (1, 1, Mark_O))]
         @ ((- 1, 1), (1, 0, Mark_O)) # [((- 1, 1), (1, 0, Mark_O))]"
    by code_simp
  have nw: "\<not> check_win grid_ops (fst (update_board grid_ops win_board (1, 1, Mark_O)))
              (1, 1, Mark_O)"
    by code_simp
  have w: "check_win grid_ops (fst (update_board grid_ops win_board (1, 0, Mark_O)))
             (1, 0, Mark_O)"
    by code_simp
  have pre: "\<forall>c \<in> set [((- 5, 5), (1, 1, Mark_O)), ((- 5, 5), (1, 1, Mark_O))].
       \<not> check_win grid_ops (fst (update_board grid_ops (board (on_board win_board)) (snd c)))
           (snd (c :: cand))"
    using nw by (simp add: on_board_def)
  have win: "check_win grid_ops (fst (update_board grid_ops (board (on_board win_board))
               (snd (((- 1, 1), (1, 0, Mark_O)) :: cand)))) (snd (((- 1, 1), (1, 0, Mark_O)) :: cand))"
    using w by (simp add: on_board_def)
  note t2 = winning_candidate_returned [OF grid_undo_exact ord pre win, of 1 2]
  note t1 = winning_candidate_returned [OF grid_undo_exact ord pre win, of 0 1]
  have r2: "snd (minimax 2 grid_ops (on_board win_board) True 2 20
          (get_possible_moves grid_ops win_board True) NegInf PosInf)
     = Inr ((1, 0, Mark_O), PosInf)"
    by code_simp
  define st2 where "st2 = fst (minimax 2 grid_ops (on_board win_board) True 2 20
          (get_possible_moves grid_ops win_board True) NegInf PosInf)"
  define res2 :: "move \<times> score" where "res2 = ((1, 0, Mark_O), PosInf)"
  have m2: "minimax (Suc 1) grid_ops (on_board win_board) True 2 20
          (get_possible_moves grid_ops win_board True) NegInf PosInf = (st2, Inr res2)"
    using r2 unfolding st2_def res2_def by (simp add: prod_eq_iff numeral_2_eq_2)
  have f2: "res2 = (snd (((- 1, 1), (1, 0, Mark_O)) :: cand), if True then PosInf else NegInf) \<and>
            board st2 = board (on_board win_board)"
    using conjunct1 [OF t2] m2 by blast
  have "\<exists>st'. minimax (Suc 0) grid_ops (on_board win_board) True 1 20
          (get_possible_moves grid_ops win_board True) NegInf PosInf
            = (st', Inr (snd (((- 1, 1), (1, 0, Mark_O)) :: cand),
                         if True then PosInf else NegInf)) \<and>
          board st' = board (on_board win_board) \<and>
          minimax_stack_depth st' = minimax_stack_depth (on_board win_board)
            + length [((- 5, 5), (1, 1, Mark_O)) :: cand, ((- 5, 5), (1, 1, Mark_O))] + 1"
    using conjunct1 [OF conjunct2 [OF t1]] by blast
  then obtain st1 where m1: "minimax (Suc 0) grid_ops (on_board win_board) True 1 20
          (get_possible_moves grid_ops win_board True) NegInf PosInf
            = (st1, Inr ((1, 0, Mark_O), PosInf))"
    and k1: "minimax_stack_depth st1 = 3"
    by (auto simp add: on_board_def)
  have e2: "minimax 2 grid_ops (on_board win_board) True 2 20
          (get_possible_moves grid_ops win_board True) NegInf PosInf = (st2, Inr res2)"
    using m2 by (simp add: numeral_2_eq_2)
  show ?thesis
    using grid_undo_exact ord nw w f2 e2 m1 k1 by (simp add: on_board_def)
qed

text \<open>
  C2 as stated fails: on \<open>win_board\<close> the maximizer wins at once at the cell \<open>(1, 0)\<close>, a legal
  move, but with the branch factor 2 each list is cut to one entry, the cell \<open>(1, 1)\<close>, and
  the search of depth 1 returns that cell with a finite score.
\<close>

theorem winning_move_missed_counterexample:
  "check_legal grid_ops win_board (1, 0, Mark_O) \<and>
   check_win grid_ops (fst (update_board grid_ops win_board (1, 0, Mark_O))) (1, 0, Mark_O) \<and>
   snd (minimax 1 grid_ops (on_board win_board) True 1 2
          (get_possible_moves grid_ops win_board True) NegInf PosInf)
     = Inr ((1, 1, Mark_O), Fin 5)"
proof -
  have legal: "check_legal grid_ops win_board (1, 0, Mark_O)"
    by code_simp
  have wins: "check_win grid_ops (fst (update_board grid_ops win_board (1, 0, Mark_O)))
                (1, 0, Mark_O)"
    by code_simp
  have other: "snd (minimax 1 grid_ops (on_board win_board) True 1 2
          (get_possible_moves grid_ops win_board True) NegInf PosInf)
     = Inr ((1, 1, Mark_O), Fin 5)"
    by code_simp
  show ?thesis using legal wins other by blast
qed

subsection \<open>The cutoff rule\<close>

lemma NegInf_le [simp]: "NegInf \<le> x"
  by (simp add: less_eq_score_def)

lemma le_PosInf [simp]: "x \<le> PosInf"
  by (cases x) (simp_all add: less_eq_score_def)

lemma top_score_append [simp]: "top_score (cs @ [c]) = max (top_score cs) (snd c)"
  by (induction cs) (simp_all add: max.left_commute max.commute)

lemma bot_score_append [simp]: "bot_score (cs @ [c]) = min (bot_score cs) (snd c)"
  by (induction cs) (simp_all add: min.left_commute min.commute)

lemma max_inv_step:
  assumes "max_inv a0 b a c e" and "bound_ok a b s m" and "s \<le> b"
  shows "max_inv a0 b (max a s) (max c s) (max e m)"
  using assms unfolding max_inv_def bound_ok_def
  by (auto simp add: max_def split: if_splits)

lemma min_inv_step:
  assumes "min_inv a b0 b c e" and "bound_ok a b s m" and "a \<le> s"
  shows "min_inv a b0 (min b s) (min c s) (min e m)"
  using assms unfolding min_inv_def bound_ok_def
  by (auto simp add: min_def split: if_splits)

lemma max_inv_final:
  assumes "max_inv a0 b a c e"
  shows "bound_ok a0 b c e"
  using assms unfolding max_inv_def bound_ok_def by auto

lemma min_inv_final:
  assumes "min_inv a b0 b c e"
  shows "bound_ok a b0 c e"
  using assms unfolding min_inv_def bound_ok_def by auto

lemma max_inv_cut:
  assumes "max_inv a0 b a c e" and "bound_ok a b s m" and "b < s" and "max e m \<le> w"
  shows "bound_ok a0 b (max c s) w"
  using assms unfolding max_inv_def bound_ok_def
  by (auto simp add: max_def split: if_splits)

lemma min_inv_cut:
  assumes "min_inv a b0 b c e" and "bound_ok a b s m" and "s < a" and "w \<le> min e m"
  shows "bound_ok a b0 (min c s) w"
  using assms unfolding min_inv_def bound_ok_def
  by (auto simp add: min_def split: if_splits)


lemma max_choice_value:
  "max_choice choices = Inr r \<Longrightarrow> snd r = top_score choices"
proof -
  have f: "\<And>c. snd (foldl (\<lambda>best c'. if snd c' > snd best then c' else best) c cs)
            = max (snd c) (top_score cs)" for cs :: "(move \<times> score) list"
  proof (induction cs)
    case Nil
    show ?case by (simp add: max_absorb1)
  next
    case (Cons x xs)
    show ?case by (auto simp add: Cons.IH max_def)
  qed
  assume "max_choice choices = Inr r"
  then show ?thesis by (cases choices) (auto simp add: max_choice_def f)
qed

lemma min_choice_value:
  "min_choice choices = Inr r \<Longrightarrow> snd r = bot_score choices"
proof -
  have f: "\<And>c. snd (foldl (\<lambda>best c'. if snd c' < snd best then c' else best) c cs)
            = min (snd c) (bot_score cs)" for cs :: "(move \<times> score) list"
  proof (induction cs)
    case Nil
    show ?case by (simp add: min_absorb1)
  next
    case (Cons x xs)
    show ?case by (auto simp add: Cons.IH min_def)
  qed
  assume "min_choice choices = Inr r"
  then show ?thesis by (cases choices) (auto simp add: min_choice_def f)
qed

lemma best_choice_Nil: "best_choice maximizer [] = Inl ValueError"
  by (simp add: best_choice_def max_choice_def min_choice_def)

lemma best_choice_Cons: "\<exists>r. best_choice maximizer (c # cs) = Inr r"
  by (simp add: best_choice_def max_choice_def min_choice_def del: split_paired_Ex)

lemma best_choice_value:
  "best_choice maximizer choices = Inr r \<Longrightarrow>
     snd r = (if maximizer then top_score choices else bot_score choices)"
  by (auto simp add: best_choice_def max_choice_value min_choice_value)


lemma minimax_exhaustive_loop_Cons:
  "minimax_exhaustive_loop fuel ops st maximizer depth poss_x poss_o (cand # rest) choices =
     (if check_win ops (board (played ops st (snd cand))) (snd cand) then
        (unplayed ops st (played ops st (snd cand)) (snd cand),
         Inr (snd cand, if \<not> maximizer then NegInf else PosInf))
      else
        (case nxt_ply_exhaustive fuel ops st maximizer depth poss_x poss_o (snd cand) of
           (st2, Inl e) \<Rightarrow> (st2, Inl e)
         | (st2, Inr (_, nxt_ply_score)) \<Rightarrow>
             minimax_exhaustive_loop fuel ops (unplayed ops st st2 (snd cand)) maximizer depth
               poss_x poss_o rest (choices @ [(snd cand, nxt_ply_score)])))"
  by (simp add: Let_def played_def unplayed_def nxt_ply_exhaustive_def
        split: prod.splits sum.splits)

declare minimax_exhaustive_loop.simps(2) [simp del]

lemma minimax_exhaustive_Suc:
  "minimax_exhaustive (Suc fuel) ops st maximizer depth branch_factor poss_moves =
     minimax_exhaustive_loop fuel ops st maximizer depth
       (fst (cap_moves branch_factor poss_moves))
       (snd (cap_moves branch_factor poss_moves))
       (move_order maximizer (fst (cap_moves branch_factor poss_moves))
          (snd (cap_moves branch_factor poss_moves)))
       []"
  by simp

lemma nxt_ply_exhaustive_board:
  assumes IH: "\<forall>st maximizer depth branch_factor poss_moves st' r.
           minimax_exhaustive fuel ops st maximizer depth branch_factor poss_moves
             = (st', Inr r) \<longrightarrow> board st' = board st"
    and "nxt_ply_exhaustive fuel ops st maximizer depth poss_x poss_o move = (st2, Inr r)"
  shows "board st2 = board (played ops st move)"
proof (cases "depth = 1")
  case True
  then show ?thesis using assms(2) by (auto simp add: nxt_ply_exhaustive_def)
next
  case False
  then have "minimax_exhaustive fuel ops (played ops st move) (\<not> maximizer) (depth - 1) 10
             (next_poss_moves ops (board (played ops st move)) move
                (snd (update_board ops (board st) move)) poss_x poss_o) = (st2, Inr r)"
    using assms(2) by (simp add: nxt_ply_exhaustive_def)
  then show ?thesis using IH by blast
qed

lemma minimax_exhaustive_loop_board:
  assumes ue: "undo_exact ops"
    and IH: "\<forall>st maximizer depth branch_factor poss_moves st' r.
           minimax_exhaustive fuel ops st maximizer depth branch_factor poss_moves
             = (st', Inr r) \<longrightarrow> board st' = board st"
  shows "minimax_exhaustive_loop fuel ops st maximizer depth poss_x poss_o poss choices
           = (st', Inr r) \<Longrightarrow> board st' = board st"
proof (induction poss arbitrary: st choices)
  case Nil
  then show ?case by simp
next
  case (Cons cand rest)
  let ?move = "snd cand"
  show ?case
  proof (cases "check_win ops (board (played ops st ?move)) ?move")
    case True
    then have "st' = unplayed ops st (played ops st ?move) ?move"
      using Cons.prems by (simp add: minimax_exhaustive_loop_Cons)
    then show ?thesis using board_unplayed [OF ue] by simp
  next
    case nowin: False
    obtain st2 res where np:
      "nxt_ply_exhaustive fuel ops st maximizer depth poss_x poss_o ?move = (st2, res)"
      by (cases "nxt_ply_exhaustive fuel ops st maximizer depth poss_x poss_o ?move")
    show ?thesis
    proof (cases res)
      case (Inl e)
      then show ?thesis using Cons.prems nowin np by (simp add: minimax_exhaustive_loop_Cons)
    next
      case (Inr ms)
      obtain m s where ms: "ms = (m, s)" by (cases ms)
      have b2: "board st2 = board (played ops st ?move)"
        using nxt_ply_exhaustive_board [OF IH, of st maximizer depth poss_x poss_o ?move st2 ms]
          np Inr by simp
      have b3: "board (unplayed ops st st2 ?move) = board st"
        by (rule board_unplayed [OF ue b2])
      have "minimax_exhaustive_loop fuel ops (unplayed ops st st2 ?move) maximizer depth
                    poss_x poss_o rest (choices @ [(?move, s)]) = (st', Inr r)"
        using Cons.prems nowin np Inr ms by (simp add: minimax_exhaustive_loop_Cons)
      then have "board st' = board (unplayed ops st st2 ?move)" by (rule Cons.IH)
      then show ?thesis using b3 by simp
    qed
  qed
qed

lemma minimax_exhaustive_board:
  assumes ue: "undo_exact ops"
  shows "minimax_exhaustive fuel ops st maximizer depth branch_factor poss_moves
           = (st', Inr r) \<Longrightarrow> board st' = board st"
proof (induction fuel arbitrary: st maximizer depth branch_factor poss_moves st' r)
  case 0
  then show ?case by simp
next
  case (Suc fuel)
  have IH: "\<forall>st maximizer depth branch_factor poss_moves st' r.
           minimax_exhaustive fuel ops st maximizer depth branch_factor poss_moves
             = (st', Inr r) \<longrightarrow> board st' = board st"
    using Suc.IH by blast
  show ?case
    using Suc.prems unfolding minimax_exhaustive_Suc
    by (rule minimax_exhaustive_loop_board [OF ue IH])
qed

lemma minimax_exhaustive_loop_mono:
  "minimax_exhaustive_loop fuel ops st maximizer depth poss_x poss_o poss choices
       = (st', Inr r) \<Longrightarrow>
     (if maximizer then top_score choices \<le> snd r else snd r \<le> bot_score choices)"
proof (induction poss arbitrary: st choices)
  case Nil
  then show ?case by (auto dest: best_choice_value)
next
  case (Cons cand rest)
  let ?move = "snd cand"
  show ?case
  proof (cases "check_win ops (board (played ops st ?move)) ?move")
    case True
    then have "snd r = (if \<not> maximizer then NegInf else PosInf)"
      using Cons.prems by (auto simp add: minimax_exhaustive_loop_Cons)
    then show ?thesis by simp
  next
    case nowin: False
    obtain st2 res where np:
      "nxt_ply_exhaustive fuel ops st maximizer depth poss_x poss_o ?move = (st2, res)"
      by (cases "nxt_ply_exhaustive fuel ops st maximizer depth poss_x poss_o ?move")
    show ?thesis
    proof (cases res)
      case (Inl e)
      then show ?thesis using Cons.prems nowin np by (simp add: minimax_exhaustive_loop_Cons)
    next
      case (Inr ms)
      obtain m s where ms: "ms = (m, s)" by (cases ms)
      have "minimax_exhaustive_loop fuel ops (unplayed ops st st2 ?move) maximizer depth
                    poss_x poss_o rest (choices @ [(?move, s)]) = (st', Inr r)"
        using Cons.prems nowin np Inr ms by (simp add: minimax_exhaustive_loop_Cons)
      then have "if maximizer then top_score (choices @ [(?move, s)]) \<le> snd r
                 else snd r \<le> bot_score (choices @ [(?move, s)])"
        by (rule Cons.IH)
      then show ?thesis by (auto split: if_splits)
    qed
  qed
qed


lemma best_choice_snoc: "\<exists>r. best_choice maximizer (cs @ [c]) = Inr r"
proof (cases cs)
  case Nil
  then show ?thesis using best_choice_Cons [of maximizer c "[]"] by simp
next
  case (Cons x xs)
  then show ?thesis using best_choice_Cons [of maximizer x "xs @ [c]"] by simp
qed

lemma new_worst_simps:
  "new_max_worst True s a = max a s" "new_min_worst True s b = b"
  "new_max_worst False s a = a" "new_min_worst False s b = min b s"
  by (auto simp add: new_max_worst_def new_min_worst_def max_def min_def)

lemma bound_ok_refl: "bound_ok a b v v"
  by (simp add: bound_ok_def)

lemma played_cong:
  "board stp = board ste \<Longrightarrow> board (played ops stp move) = board (played ops ste move)"
  by (simp add: played_def)

lemma nxt_ply_sim:
  assumes IH: "\<forall>stp ste maximizer depth branch_factor poss_moves a b ste' r'.
           board stp = board ste \<and> a \<le> b \<and>
           minimax_exhaustive fuel ops ste maximizer depth branch_factor poss_moves
             = (ste', Inr r') \<longrightarrow>
           (\<exists>stp' r. minimax fuel ops stp maximizer depth branch_factor poss_moves a b
                         = (stp', Inr r) \<and> bound_ok a b (snd r) (snd r'))"
    and bd: "board stp = board ste" and ab: "a \<le> b"
    and ex: "nxt_ply_exhaustive fuel ops ste maximizer depth poss_x poss_o move = (ste2, Inr r')"
  shows "\<exists>stp2 r. nxt_ply fuel ops stp maximizer depth poss_x poss_o move a b = (stp2, Inr r)
            \<and> bound_ok a b (snd r) (snd r')"
proof (cases "depth = 1")
  case True
  have "snd r' = score_board ops (board (played ops ste move))"
    using ex True by (auto simp add: nxt_ply_exhaustive_def)
  then have "bound_ok a b (score_board ops (board (played ops stp move))) (snd r')"
    by (simp only: played_cong [OF bd, of ops move] bound_ok_refl)
  then show ?thesis using True by (simp add: nxt_ply_def)
next
  case False
  have e: "minimax_exhaustive fuel ops (played ops ste move) (\<not> maximizer) (depth - 1) 10
             (next_poss_moves ops (board (played ops stp move)) move
                (snd (update_board ops (board stp) move)) poss_x poss_o) = (ste2, Inr r')"
    using ex False bd played_cong [OF bd, of ops move] by (simp add: nxt_ply_exhaustive_def)
  have "\<exists>stp' r. minimax fuel ops (played ops stp move) (\<not> maximizer) (depth - 1) 10
             (next_poss_moves ops (board (played ops stp move)) move
                (snd (update_board ops (board stp) move)) poss_x poss_o) a b = (stp', Inr r)
           \<and> bound_ok a b (snd r) (snd r')"
    using IH played_cong [OF bd, of ops move] ab e by blast
  then show ?thesis using False by (simp add: nxt_ply_def)
qed


lemma loop_sim_max:
  assumes ue: "undo_exact ops"
    and IH: "\<forall>stp ste maximizer depth branch_factor poss_moves a b ste' r'.
           board stp = board ste \<and> a \<le> b \<and>
           minimax_exhaustive fuel ops ste maximizer depth branch_factor poss_moves
             = (ste', Inr r') \<longrightarrow>
           (\<exists>stp' r. minimax fuel ops stp maximizer depth branch_factor poss_moves a b
                         = (stp', Inr r) \<and> bound_ok a b (snd r) (snd r'))"
  shows "board stp = board ste \<Longrightarrow> max_inv a0 b a (top_score C) (top_score E) \<Longrightarrow> (C = []) = (E = []) \<Longrightarrow>
         minimax_exhaustive_loop fuel ops ste True depth poss_x poss_o poss E = (ste', Inr r') \<Longrightarrow>
         \<exists>stp' r. minimax_loop fuel ops stp True depth poss_x poss_o poss C a b = (stp', Inr r) \<and> bound_ok a0 b (snd r) (snd r')"
proof (induction poss arbitrary: stp ste C E a)
  case Nil
  have e: "best_choice True E = Inr r'" using Nil.prems(4) by simp
  then have "E \<noteq> []" using best_choice_Nil [of True] by auto
  then have "C \<noteq> []" using Nil.prems(3) by simp
  then obtain c cs where "C = c # cs" by (cases C) auto
  then obtain r where r: "best_choice True C = Inr r" using best_choice_Cons [of True c cs] by auto
  have "snd r = top_score C" using best_choice_value [OF r] by simp
  moreover have "snd r' = top_score E" using best_choice_value [OF e] by simp
  ultimately have "bound_ok a0 b (snd r) (snd r')" using max_inv_final [OF Nil.prems(2)] by simp
  then show ?case using r by simp
next
  case (Cons cand rest)
  let ?move = "snd cand"
  have bd: "board stp = board ste" by (rule Cons.prems(1))
  have pc: "board (played ops stp ?move) = board (played ops ste ?move)"
    by (rule played_cong [OF bd])
  have ab: "a \<le> b" using Cons.prems(2) unfolding max_inv_def by auto
  show ?case
  proof (cases "check_win ops (board (played ops ste ?move)) ?move")
    case True
    then have "snd r' = PosInf"
      using Cons.prems(4) by (auto simp add: minimax_exhaustive_loop_Cons)
    then have "bound_ok a0 b PosInf (snd r')" by (simp add: bound_ok_refl)
    then show ?thesis using True pc by (simp add: minimax_loop_Cons)
  next
    case nowin: False
    obtain ste2 res where np:
      "nxt_ply_exhaustive fuel ops ste True depth poss_x poss_o ?move = (ste2, res)"
      by (cases "nxt_ply_exhaustive fuel ops ste True depth poss_x poss_o ?move")
    show ?thesis
    proof (cases res)
      case (Inl e)
      then show ?thesis using Cons.prems(4) nowin np by (simp add: minimax_exhaustive_loop_Cons)
    next
      case (Inr ms')
      obtain m' s' where ms': "ms' = (m', s')" by (cases ms')
      have npe: "nxt_ply_exhaustive fuel ops ste True depth poss_x poss_o ?move
                   = (ste2, Inr (m', s'))"
        using np Inr ms' by simp
      have er: "minimax_exhaustive_loop fuel ops (unplayed ops ste ste2 ?move) True depth
                  poss_x poss_o rest (E @ [(?move, s')]) = (ste', Inr r')"
        using Cons.prems(4) nowin npe by (simp add: minimax_exhaustive_loop_Cons)
      obtain stp2 ms where npp:
        "nxt_ply fuel ops stp True depth poss_x poss_o ?move a b = (stp2, Inr ms)"
        and okc: "bound_ok a b (snd ms) s'"
        using nxt_ply_sim [OF IH bd ab npe] by auto
      obtain m s where ms: "ms = (m, s)" by (cases ms)
      have ok: "bound_ok a b s s'" using okc ms by simp
      have IHp: "\<forall>st maximizer depth branch_factor poss_moves max_worst min_worst st' r.
           minimax fuel ops st maximizer depth branch_factor poss_moves max_worst min_worst
             = (st', Inr r) \<longrightarrow> board st' = board st"
        using minimax_board [OF ue] by blast
      have IHe: "\<forall>st maximizer depth branch_factor poss_moves st' r.
           minimax_exhaustive fuel ops st maximizer depth branch_factor poss_moves
             = (st', Inr r) \<longrightarrow> board st' = board st"
        using minimax_exhaustive_board [OF ue] by blast
      have bp: "board (unplayed ops stp stp2 ?move) = board stp"
        using board_unplayed [OF ue nxt_ply_board [OF IHp npp]] .
      have be: "board (unplayed ops ste ste2 ?move) = board ste"
        using board_unplayed [OF ue nxt_ply_exhaustive_board [OF IHe npe]] .
      have bd': "board (unplayed ops stp stp2 ?move) = board (unplayed ops ste ste2 ?move)"
        using bp be bd by simp
      have nw: "\<not> check_win ops (board (played ops stp ?move)) ?move"
        using nowin pc by simp
      show ?thesis
      proof (cases "b < s")
        case True
        obtain r where r: "best_choice True (C @ [(?move, s)]) = Inr r"
          using best_choice_snoc [of True C "(?move, s)"] by blast
        have v: "snd r = max (top_score C) s" using best_choice_value [OF r] by simp
        have mono: "top_score (E @ [(?move, s')]) \<le> snd r'"
          using minimax_exhaustive_loop_mono [OF er] by simp
        then have "max (top_score E) s' \<le> snd r' \<or> snd r' \<le> max (top_score E) s'" by simp
        have "bound_ok a0 b (max (top_score C) s) (snd r')"
          using max_inv_cut [OF Cons.prems(2) ok True] mono by simp
        then have "bound_ok a0 b (snd r) (snd r')" using v by simp
        moreover have "minimax_loop fuel ops stp True depth poss_x poss_o (cand # rest) C a b
                        = (unplayed ops stp stp2 ?move, Inr r)"
          using nw npp ms True r by (simp add: minimax_loop_Cons cutoff_def)
        ultimately show ?thesis by blast
      next
        case False
        then have nc: "s \<le> b" by simp
        have inv': "max_inv a0 b (max a s) (top_score (C @ [(?move, s)])) (top_score (E @ [(?move, s')]))"
          using max_inv_step [OF Cons.prems(2) ok nc] by simp
        have ne: "(C @ [(?move, s)] = []) = (E @ [(?move, s')] = [])" by simp
        have step: "minimax_loop fuel ops stp True depth poss_x poss_o (cand # rest) C a b
                      = minimax_loop fuel ops (unplayed ops stp stp2 ?move) True depth poss_x poss_o rest (C @ [(?move, s)]) (max a s) b"
          using nw npp ms False
          by (simp add: minimax_loop_Cons cutoff_def new_worst_simps)
        show ?thesis
          unfolding step by (rule Cons.IH [OF bd' inv' ne er])
      qed
    qed
  qed
qed

lemma loop_sim_min:
  assumes ue: "undo_exact ops"
    and IH: "\<forall>stp ste maximizer depth branch_factor poss_moves a b ste' r'.
           board stp = board ste \<and> a \<le> b \<and>
           minimax_exhaustive fuel ops ste maximizer depth branch_factor poss_moves
             = (ste', Inr r') \<longrightarrow>
           (\<exists>stp' r. minimax fuel ops stp maximizer depth branch_factor poss_moves a b
                         = (stp', Inr r) \<and> bound_ok a b (snd r) (snd r'))"
  shows "board stp = board ste \<Longrightarrow> min_inv a b0 b (bot_score C) (bot_score E) \<Longrightarrow> (C = []) = (E = []) \<Longrightarrow>
         minimax_exhaustive_loop fuel ops ste False depth poss_x poss_o poss E = (ste', Inr r') \<Longrightarrow>
         \<exists>stp' r. minimax_loop fuel ops stp False depth poss_x poss_o poss C a b = (stp', Inr r) \<and> bound_ok a b0 (snd r) (snd r')"
proof (induction poss arbitrary: stp ste C E b)
  case Nil
  have e: "best_choice False E = Inr r'" using Nil.prems(4) by simp
  then have "E \<noteq> []" using best_choice_Nil [of False] by auto
  then have "C \<noteq> []" using Nil.prems(3) by simp
  then obtain c cs where "C = c # cs" by (cases C) auto
  then obtain r where r: "best_choice False C = Inr r" using best_choice_Cons [of False c cs] by auto
  have "snd r = bot_score C" using best_choice_value [OF r] by simp
  moreover have "snd r' = bot_score E" using best_choice_value [OF e] by simp
  ultimately have "bound_ok a b0 (snd r) (snd r')" using min_inv_final [OF Nil.prems(2)] by simp
  then show ?case using r by simp
next
  case (Cons cand rest)
  let ?move = "snd cand"
  have bd: "board stp = board ste" by (rule Cons.prems(1))
  have pc: "board (played ops stp ?move) = board (played ops ste ?move)"
    by (rule played_cong [OF bd])
  have ab: "a \<le> b" using Cons.prems(2) unfolding min_inv_def by auto
  show ?case
  proof (cases "check_win ops (board (played ops ste ?move)) ?move")
    case True
    then have "snd r' = NegInf"
      using Cons.prems(4) by (auto simp add: minimax_exhaustive_loop_Cons)
    then have "bound_ok a b0 NegInf (snd r')" by (simp add: bound_ok_refl)
    then show ?thesis using True pc by (simp add: minimax_loop_Cons)
  next
    case nowin: False
    obtain ste2 res where np:
      "nxt_ply_exhaustive fuel ops ste False depth poss_x poss_o ?move = (ste2, res)"
      by (cases "nxt_ply_exhaustive fuel ops ste False depth poss_x poss_o ?move")
    show ?thesis
    proof (cases res)
      case (Inl e)
      then show ?thesis using Cons.prems(4) nowin np by (simp add: minimax_exhaustive_loop_Cons)
    next
      case (Inr ms')
      obtain m' s' where ms': "ms' = (m', s')" by (cases ms')
      have npe: "nxt_ply_exhaustive fuel ops ste False depth poss_x poss_o ?move
                   = (ste2, Inr (m', s'))"
        using np Inr ms' by simp
      have er: "minimax_exhaustive_loop fuel ops (unplayed ops ste ste2 ?move) False depth
                  poss_x poss_o rest (E @ [(?move, s')]) = (ste', Inr r')"
        using Cons.prems(4) nowin npe by (simp add: minimax_exhaustive_loop_Cons)
      obtain stp2 ms where npp:
        "nxt_ply fuel ops stp False depth poss_x poss_o ?move a b = (stp2, Inr ms)"
        and okc: "bound_ok a b (snd ms) s'"
        using nxt_ply_sim [OF IH bd ab npe] by auto
      obtain m s where ms: "ms = (m, s)" by (cases ms)
      have ok: "bound_ok a b s s'" using okc ms by simp
      have IHp: "\<forall>st maximizer depth branch_factor poss_moves max_worst min_worst st' r.
           minimax fuel ops st maximizer depth branch_factor poss_moves max_worst min_worst
             = (st', Inr r) \<longrightarrow> board st' = board st"
        using minimax_board [OF ue] by blast
      have IHe: "\<forall>st maximizer depth branch_factor poss_moves st' r.
           minimax_exhaustive fuel ops st maximizer depth branch_factor poss_moves
             = (st', Inr r) \<longrightarrow> board st' = board st"
        using minimax_exhaustive_board [OF ue] by blast
      have bp: "board (unplayed ops stp stp2 ?move) = board stp"
        using board_unplayed [OF ue nxt_ply_board [OF IHp npp]] .
      have be: "board (unplayed ops ste ste2 ?move) = board ste"
        using board_unplayed [OF ue nxt_ply_exhaustive_board [OF IHe npe]] .
      have bd': "board (unplayed ops stp stp2 ?move) = board (unplayed ops ste ste2 ?move)"
        using bp be bd by simp
      have nw: "\<not> check_win ops (board (played ops stp ?move)) ?move"
        using nowin pc by simp
      show ?thesis
      proof (cases "s < a")
        case True
        obtain r where r: "best_choice False (C @ [(?move, s)]) = Inr r"
          using best_choice_snoc [of False C "(?move, s)"] by blast
        have v: "snd r = min (bot_score C) s" using best_choice_value [OF r] by simp
        have mono: "snd r' \<le> bot_score (E @ [(?move, s')])"
          using minimax_exhaustive_loop_mono [OF er] by simp
        then have "min (bot_score E) s' \<le> snd r' \<or> snd r' \<le> min (bot_score E) s'" by simp
        have "bound_ok a b0 (min (bot_score C) s) (snd r')"
          using min_inv_cut [OF Cons.prems(2) ok True] mono by simp
        then have "bound_ok a b0 (snd r) (snd r')" using v by simp
        moreover have "minimax_loop fuel ops stp False depth poss_x poss_o (cand # rest) C a b
                        = (unplayed ops stp stp2 ?move, Inr r)"
          using nw npp ms True r by (simp add: minimax_loop_Cons cutoff_def)
        ultimately show ?thesis by blast
      next
        case False
        then have nc: "a \<le> s" by simp
        have inv': "min_inv a b0 (min b s) (bot_score (C @ [(?move, s)])) (bot_score (E @ [(?move, s')]))"
          using min_inv_step [OF Cons.prems(2) ok nc] by simp
        have ne: "(C @ [(?move, s)] = []) = (E @ [(?move, s')] = [])" by simp
        have step: "minimax_loop fuel ops stp False depth poss_x poss_o (cand # rest) C a b
                      = minimax_loop fuel ops (unplayed ops stp stp2 ?move) False depth poss_x poss_o rest (C @ [(?move, s)]) a (min b s)"
          using nw npp ms False
          by (simp add: minimax_loop_Cons cutoff_def new_worst_simps)
        show ?thesis
          unfolding step by (rule Cons.IH [OF bd' inv' ne er])
      qed
    qed
  qed
qed


lemma minimax_sim:
  assumes ue: "undo_exact ops"
  shows "\<forall>stp ste maximizer depth branch_factor poss_moves a b ste' r'.
           board stp = board ste \<and> a \<le> b \<and>
           minimax_exhaustive fuel ops ste maximizer depth branch_factor poss_moves
             = (ste', Inr r') \<longrightarrow>
           (\<exists>stp' r. minimax fuel ops stp maximizer depth branch_factor poss_moves a b
                         = (stp', Inr r) \<and> bound_ok a b (snd r) (snd r'))"
proof (induction fuel)
  case 0
  show ?case by simp
next
  case (Suc fuel)
  show ?case
  proof (intro allI impI, elim conjE)
    fix stp ste :: "'a search_state" and maximizer depth branch_factor poss_moves
      and a b :: score and ste' r'
    assume bd: "board stp = board ste" and ab: "a \<le> b"
      and ex: "minimax_exhaustive (Suc fuel) ops ste maximizer depth branch_factor poss_moves
                 = (ste', Inr r')"
    let ?px = "fst (cap_moves branch_factor poss_moves)"
    let ?po = "snd (cap_moves branch_factor poss_moves)"
    have nil: "(([] :: (move \<times> score) list) = []) = (([] :: (move \<times> score) list) = [])"
      by simp
    show "\<exists>stp' r. minimax (Suc fuel) ops stp maximizer depth branch_factor poss_moves a b
                         = (stp', Inr r) \<and> bound_ok a b (snd r) (snd r')"
    proof (cases maximizer)
      case True
      have inv: "max_inv a b a (top_score []) (top_score [])"
        using ab by (simp add: max_inv_def max_absorb1)
      have e: "minimax_exhaustive_loop fuel ops ste True depth ?px ?po
                 (move_order True ?px ?po) [] = (ste', Inr r')"
        using ex True by (simp add: minimax_exhaustive_Suc)
      show ?thesis
        using loop_sim_max [OF ue Suc.IH bd inv nil e] True by (simp add: minimax_Suc)
    next
      case False
      have inv: "min_inv a b b (bot_score []) (bot_score [])"
        using ab by (simp add: min_inv_def min_absorb1)
      have e: "minimax_exhaustive_loop fuel ops ste False depth ?px ?po
                 (move_order False ?px ?po) [] = (ste', Inr r')"
        using ex False by (simp add: minimax_exhaustive_Suc)
      show ?thesis
        using loop_sim_min [OF ue Suc.IH bd inv nil e] False by (simp add: minimax_Suc)
    qed
  qed
qed

text \<open>
  C4. For every board whose \<^verbatim>\<open>undo_change\<close> exactly reverses \<^verbatim>\<open>update_board\<close>, every side
  to move, depth and branch factor: when the search without the cutoff rule returns a
  value, \<^verbatim>\<open>minimax\<close> called with the bounds of its signature returns the same value, over
  the same capped and interleaved candidates. So the exhaustive search never finds a
  better score than the search with cutoffs.
\<close>

theorem cutoff_preserves_value:
  "undo_exact ops \<Longrightarrow>
   minimax_exhaustive fuel ops st maximizer depth branch_factor poss_moves
     = (st_e, Inr (move_e, v)) \<Longrightarrow>
   \<exists>st_p move_p. minimax fuel ops st maximizer depth branch_factor poss_moves NegInf PosInf
                    = (st_p, Inr (move_p, v))"
proof -
  assume ue: "undo_exact ops"
    and ex: "minimax_exhaustive fuel ops st maximizer depth branch_factor poss_moves
               = (st_e, Inr (move_e, v))"
  have "NegInf \<le> PosInf" by simp
  then obtain st_p r where
    p: "minimax fuel ops st maximizer depth branch_factor poss_moves NegInf PosInf
          = (st_p, Inr r)"
    and ok: "bound_ok NegInf PosInf (snd r) (snd (move_e, v))"
    using minimax_sim [OF ue, of fuel] ex by blast
  have "snd r = v" using ok by (simp add: bound_ok_def)
  then have "r = (fst r, v)" by (cases r) simp
  then show ?thesis using p by metis
qed

text \<open>
  A search of depth 2 on \<open>four_cells\<close>: both searches return the value \<open>-1\<close>; the exhaustive
  one applies 42 moves, the one with cutoffs 26.
\<close>

theorem cutoff_preserves_value_witness:
  "undo_exact grid_ops \<and>
   snd (minimax_exhaustive 2 grid_ops (on_board four_cells) True 2 20
          (get_possible_moves grid_ops four_cells True)) = Inr ((0, 0, Mark_O), Fin (- 1)) \<and>
   snd (minimax 2 grid_ops (on_board four_cells) True 2 20
          (get_possible_moves grid_ops four_cells True) NegInf PosInf)
     = Inr ((0, 0, Mark_O), Fin (- 1)) \<and>
   minimax_stack_depth (fst (minimax_exhaustive 2 grid_ops (on_board four_cells) True 2 20
          (get_possible_moves grid_ops four_cells True))) = 42 \<and>
   minimax_stack_depth (fst (minimax 2 grid_ops (on_board four_cells) True 2 20
          (get_possible_moves grid_ops four_cells True) NegInf PosInf)) = 26"
proof -
  have e: "snd (minimax_exhaustive 2 grid_ops (on_board four_cells) True 2 20
          (get_possible_moves grid_ops four_cells True)) = Inr ((0, 0, Mark_O), Fin (- 1))"
    by code_simp
  then have ex: "minimax_exhaustive 2 grid_ops (on_board four_cells) True 2 20
          (get_possible_moves grid_ops four_cells True)
      = (fst (minimax_exhaustive 2 grid_ops (on_board four_cells) True 2 20
          (get_possible_moves grid_ops four_cells True)), Inr ((0, 0, Mark_O), Fin (- 1)))"
    by (simp add: prod_eq_iff)
  obtain st_p move_p where
    p: "minimax 2 grid_ops (on_board four_cells) True 2 20
          (get_possible_moves grid_ops four_cells True) NegInf PosInf
        = (st_p, Inr (move_p, Fin (- 1)))"
    using cutoff_preserves_value [OF grid_undo_exact ex] by blast
  have m: "fst (projr (snd (minimax 2 grid_ops (on_board four_cells) True 2 20
          (get_possible_moves grid_ops four_cells True) NegInf PosInf))) = (0, 0, Mark_O)"
    by code_simp
  have pv: "snd (minimax 2 grid_ops (on_board four_cells) True 2 20
          (get_possible_moves grid_ops four_cells True) NegInf PosInf)
     = Inr ((0, 0, Mark_O), Fin (- 1))"
    using p m by simp
  have c1: "minimax_stack_depth (fst (minimax_exhaustive 2 grid_ops (on_board four_cells) True 2 20
          (get_possible_moves grid_ops four_cells True))) = 42"
    by code_simp
  have c2: "minimax_stack_depth (fst (minimax 2 grid_ops (on_board four_cells) True 2 20
          (get_possible_moves grid_ops four_cells True) NegInf PosInf)) = 26"
    by code_simp
  show ?thesis using grid_undo_exact e pv c1 c2 by blast
qed

subsection \<open>The branch factor below the root\<close>

text \<open>
  C9. The branch factor handed to \<^verbatim>\<open>minimax\<close> caps the lists of that call only: the loop
  takes the capped lists and no branch factor, and for a candidate that does not win at a
  depth other than 1 it calls \<^verbatim>\<open>minimax\<close> one ply deeper with the branch factor 10, the
  default of the signature. So two branch factors that cap the lists of the root alike
  give the same search. On \<open>four_cells\<close> a search of depth 2 with the branch factor 2 applies
  7 moves, more than the \<open>2 + 2 * 2\<close> that a cap of 2 at every node would allow.
\<close>

theorem branch_factor_root_only:
  "minimax (Suc fuel) ops st maximizer depth branch_factor poss_moves max_worst min_worst
     = minimax_loop fuel ops st maximizer depth
         (fst (cap_moves branch_factor poss_moves)) (snd (cap_moves branch_factor poss_moves))
         (move_order maximizer (fst (cap_moves branch_factor poss_moves))
            (snd (cap_moves branch_factor poss_moves)))
         [] max_worst min_worst \<and>
   (\<not> check_win ops (fst (update_board ops (board st) (snd cand))) (snd cand) \<and> depth \<noteq> 1 \<longrightarrow>
    minimax_loop fuel ops st maximizer depth poss_x poss_o (cand # rest) choices
        max_worst min_worst
      = (case minimax fuel ops (played ops st (snd cand)) (\<not> maximizer) (depth - 1) 10
                (next_poss_moves ops (board (played ops st (snd cand))) (snd cand)
                   (snd (update_board ops (board st) (snd cand))) poss_x poss_o)
                max_worst min_worst of
           (st2, Inl e) \<Rightarrow> (st2, Inl e)
         | (st2, Inr (_, nxt_ply_score)) \<Rightarrow>
             if cutoff maximizer nxt_ply_score max_worst min_worst
             then (unplayed ops st st2 (snd cand),
                   best_choice maximizer (choices @ [(snd cand, nxt_ply_score)]))
             else minimax_loop fuel ops (unplayed ops st st2 (snd cand)) maximizer depth
                    poss_x poss_o rest (choices @ [(snd cand, nxt_ply_score)])
                    (new_max_worst maximizer nxt_ply_score max_worst)
                    (new_min_worst maximizer nxt_ply_score min_worst))) \<and>
   (cap_moves branch_factor poss_moves = cap_moves branch_factor' poss_moves \<longrightarrow>
    minimax fuel ops st maximizer depth branch_factor poss_moves max_worst min_worst
      = minimax fuel ops st maximizer depth branch_factor' poss_moves max_worst min_worst) \<and>
   minimax_stack_depth (fst (minimax 2 grid_ops (on_board four_cells) True 2 2
       (get_possible_moves grid_ops four_cells True) NegInf PosInf)) = 7"
proof (intro conjI impI)
  show "minimax (Suc fuel) ops st maximizer depth branch_factor poss_moves max_worst min_worst
     = minimax_loop fuel ops st maximizer depth
         (fst (cap_moves branch_factor poss_moves)) (snd (cap_moves branch_factor poss_moves))
         (move_order maximizer (fst (cap_moves branch_factor poss_moves))
            (snd (cap_moves branch_factor poss_moves)))
         [] max_worst min_worst"
    by (rule minimax_Suc)
next
  assume "\<not> check_win ops (fst (update_board ops (board st) (snd cand))) (snd cand) \<and> depth \<noteq> 1"
  then show "minimax_loop fuel ops st maximizer depth poss_x poss_o (cand # rest) choices
        max_worst min_worst
      = (case minimax fuel ops (played ops st (snd cand)) (\<not> maximizer) (depth - 1) 10
                (next_poss_moves ops (board (played ops st (snd cand))) (snd cand)
                   (snd (update_board ops (board st) (snd cand))) poss_x poss_o)
                max_worst min_worst of
           (st2, Inl e) \<Rightarrow> (st2, Inl e)
         | (st2, Inr (_, nxt_ply_score)) \<Rightarrow>
             if cutoff maximizer nxt_ply_score max_worst min_worst
             then (unplayed ops st st2 (snd cand),
                   best_choice maximizer (choices @ [(snd cand, nxt_ply_score)]))
             else minimax_loop fuel ops (unplayed ops st st2 (snd cand)) maximizer depth
                    poss_x poss_o rest (choices @ [(snd cand, nxt_ply_score)])
                    (new_max_worst maximizer nxt_ply_score max_worst)
                    (new_min_worst maximizer nxt_ply_score min_worst))"
    by (simp add: minimax_loop_Cons nxt_ply_def board_played)
next
  assume "cap_moves branch_factor poss_moves = cap_moves branch_factor' poss_moves"
  then show "minimax fuel ops st maximizer depth branch_factor poss_moves max_worst min_worst
      = minimax fuel ops st maximizer depth branch_factor' poss_moves max_worst min_worst"
    by (cases fuel) simp_all
next
  show "minimax_stack_depth (fst (minimax 2 grid_ops (on_board four_cells) True 2 2
       (get_possible_moves grid_ops four_cells True) NegInf PosInf)) = 7"
    by code_simp
qed

text \<open>
  On \<open>four_cells\<close>: a candidate of the root that does not win, at depth 2; and the branch
  factors 20 and 40, which cap the lists of the root alike.
\<close>

theorem branch_factor_root_only_witness:
  "\<not> check_win grid_ops (fst (update_board grid_ops (board (on_board four_cells))
        (snd (((- 2, 4), (1, 1, Mark_O)) :: cand)))) (snd (((- 2, 4), (1, 1, Mark_O)) :: cand)) \<and>
   (2 :: int) \<noteq> 1 \<and>
   snd (minimax_loop 1 grid_ops (on_board four_cells) True 2
          [((- 3, 1), (1, 0, Mark_O))] [((- 2, 4), (1, 1, Mark_O))]
          [((- 2, 4), (1, 1, Mark_O))] [] NegInf PosInf)
     = Inr ((1, 1, Mark_O), Fin (- 2)) \<and>
   cap_moves 20 (get_possible_moves grid_ops four_cells True)
     = cap_moves 40 (get_possible_moves grid_ops four_cells True) \<and>
   minimax 2 grid_ops (on_board four_cells) True 2 20
       (get_possible_moves grid_ops four_cells True) NegInf PosInf
     = minimax 2 grid_ops (on_board four_cells) True 2 40
       (get_possible_moves grid_ops four_cells True) NegInf PosInf"
proof -
  note t = branch_factor_root_only [of 1 grid_ops "on_board four_cells" True 2 20
      "get_possible_moves grid_ops four_cells True" NegInf PosInf
      "((- 2, 4), (1, 1, Mark_O))" "[((- 3, 1), (1, 0, Mark_O))]" "[((- 2, 4), (1, 1, Mark_O))]"
      "[]" "[]" 40]
  have w: "\<not> check_win grid_ops (fst (update_board grid_ops (board (on_board four_cells))
        (snd (((- 2, 4), (1, 1, Mark_O)) :: cand)))) (snd (((- 2, 4), (1, 1, Mark_O)) :: cand))"
    by code_simp
  have c: "cap_moves 20 (get_possible_moves grid_ops four_cells True)
     = cap_moves 40 (get_possible_moves grid_ops four_cells True)"
    by code_simp
  have l: "snd (minimax_loop 1 grid_ops (on_board four_cells) True 2
          [((- 3, 1), (1, 0, Mark_O))] [((- 2, 4), (1, 1, Mark_O))]
          [((- 2, 4), (1, 1, Mark_O))] [] NegInf PosInf)
     = Inr ((1, 1, Mark_O), Fin (- 2))"
    by code_simp
  have "minimax 2 grid_ops (on_board four_cells) True 2 20
       (get_possible_moves grid_ops four_cells True) NegInf PosInf
     = minimax 2 grid_ops (on_board four_cells) True 2 40
       (get_possible_moves grid_ops four_cells True) NegInf PosInf"
    using branch_factor_root_only [of 2 grid_ops "on_board four_cells" True 2 20
      "get_possible_moves grid_ops four_cells True" NegInf PosInf
      "((- 2, 4), (1, 1, Mark_O))" "[]" "[]" "[]" "[]" 40] c
    by blast
  then show ?thesis using t w c l by simp
qed

subsection \<open>The depth of the stack\<close>

text \<open>
  A search of depth \<open>d \<ge> 1\<close> nests \<open>d\<close> calls of \<^verbatim>\<open>minimax\<close>. With that many frames left it
  does not end in \<^verbatim>\<open>RecursionError\<close>, with or without the cutoff rule: it returns, or it
  raises the \<^verbatim>\<open>ValueError\<close> of a node without candidates.
\<close>

lemma minimax_loop_enough_stack:
  assumes IH: "\<forall>st maximizer depth branch_factor poss_moves max_worst min_worst.
           1 \<le> depth \<and> nat depth \<le> fuel \<longrightarrow>
           snd (minimax fuel ops st maximizer depth branch_factor poss_moves max_worst min_worst)
             \<noteq> Inl RecursionError"
    and d: "depth = 1 \<or> (2 \<le> depth \<and> nat depth \<le> Suc fuel)"
  shows "snd (minimax_loop fuel ops st maximizer depth poss_x poss_o poss choices max_worst min_worst)
           \<noteq> Inl RecursionError"
proof (induction poss arbitrary: st choices max_worst min_worst)
  case Nil
  show ?case
    by (cases choices) (simp_all add: best_choice_def max_choice_def min_choice_def)
next
  case (Cons cand rest)
  let ?move = "snd cand"
  show ?case
  proof (cases "check_win ops (board (played ops st ?move)) ?move")
    case True
    then show ?thesis by (simp add: minimax_loop_Cons)
  next
    case nowin: False
    obtain st2 res where np:
      "nxt_ply fuel ops st maximizer depth poss_x poss_o ?move max_worst min_worst = (st2, res)"
      by (cases "nxt_ply fuel ops st maximizer depth poss_x poss_o ?move max_worst min_worst")
    have nr: "res \<noteq> Inl RecursionError"
    proof (cases "depth = 1")
      case True
      then show ?thesis using np by (auto simp add: nxt_ply_def)
    next
      case False
      then have "1 \<le> depth - 1 \<and> nat (depth - 1) \<le> fuel" using d by auto
      then have "snd (minimax fuel ops (played ops st ?move) (\<not> maximizer) (depth - 1) 10
             (next_poss_moves ops (board (played ops st ?move)) ?move
                (snd (update_board ops (board st) ?move)) poss_x poss_o) max_worst min_worst)
             \<noteq> Inl RecursionError"
        using IH by blast
      then show ?thesis using np False by (simp add: nxt_ply_def)
    qed
    show ?thesis
    proof (cases res)
      case (Inl e)
      then show ?thesis using nowin np nr by (simp add: minimax_loop_Cons)
    next
      case (Inr ms)
      obtain m s where ms: "ms = (m, s)" by (cases ms)
      show ?thesis
      proof (cases "cutoff maximizer s max_worst min_worst")
        case True
        then show ?thesis
          using nowin np Inr ms best_choice_snoc [of maximizer choices "(?move, s)"]
          by (auto simp add: minimax_loop_Cons)
      next
        case False
        then show ?thesis
          using nowin np Inr ms Cons.IH by (simp add: minimax_loop_Cons)
      qed
    qed
  qed
qed

lemma minimax_enough_stack:
  "1 \<le> depth \<Longrightarrow> nat depth \<le> fuel \<Longrightarrow>
     snd (minimax fuel ops st maximizer depth branch_factor poss_moves max_worst min_worst)
       \<noteq> Inl RecursionError"
proof (induction fuel arbitrary: st maximizer depth branch_factor poss_moves max_worst min_worst)
  case 0
  then show ?case by simp
next
  case (Suc fuel)
  have IH: "\<forall>st maximizer depth branch_factor poss_moves max_worst min_worst.
           1 \<le> depth \<and> nat depth \<le> fuel \<longrightarrow>
           snd (minimax fuel ops st maximizer depth branch_factor poss_moves max_worst min_worst)
             \<noteq> Inl RecursionError"
    using Suc.IH by blast
  have d: "depth = 1 \<or> (2 \<le> depth \<and> nat depth \<le> Suc fuel)"
    using Suc.prems by auto
  show ?case
    unfolding minimax_Suc by (rule minimax_loop_enough_stack [OF IH d])
qed

lemma minimax_exhaustive_loop_enough_stack:
  assumes IH: "\<forall>st maximizer depth branch_factor poss_moves.
           1 \<le> depth \<and> nat depth \<le> fuel \<longrightarrow>
           snd (minimax_exhaustive fuel ops st maximizer depth branch_factor poss_moves)
             \<noteq> Inl RecursionError"
    and d: "depth = 1 \<or> (2 \<le> depth \<and> nat depth \<le> Suc fuel)"
  shows "snd (minimax_exhaustive_loop fuel ops st maximizer depth poss_x poss_o poss choices)
           \<noteq> Inl RecursionError"
proof (induction poss arbitrary: st choices)
  case Nil
  show ?case
    by (cases choices) (simp_all add: best_choice_def max_choice_def min_choice_def)
next
  case (Cons cand rest)
  let ?move = "snd cand"
  show ?case
  proof (cases "check_win ops (board (played ops st ?move)) ?move")
    case True
    then show ?thesis by (simp add: minimax_exhaustive_loop_Cons)
  next
    case nowin: False
    obtain st2 res where np:
      "nxt_ply_exhaustive fuel ops st maximizer depth poss_x poss_o ?move = (st2, res)"
      by (cases "nxt_ply_exhaustive fuel ops st maximizer depth poss_x poss_o ?move")
    have nr: "res \<noteq> Inl RecursionError"
    proof (cases "depth = 1")
      case True
      then show ?thesis using np by (auto simp add: nxt_ply_exhaustive_def)
    next
      case False
      then have "1 \<le> depth - 1 \<and> nat (depth - 1) \<le> fuel" using d by auto
      then have "snd (minimax_exhaustive fuel ops (played ops st ?move) (\<not> maximizer) (depth - 1) 10
             (next_poss_moves ops (board (played ops st ?move)) ?move
                (snd (update_board ops (board st) ?move)) poss_x poss_o))
             \<noteq> Inl RecursionError"
        using IH by blast
      then show ?thesis using np False by (simp add: nxt_ply_exhaustive_def)
    qed
    show ?thesis
    proof (cases res)
      case (Inl e)
      then show ?thesis using nowin np nr by (simp add: minimax_exhaustive_loop_Cons)
    next
      case (Inr ms)
      obtain m s where ms: "ms = (m, s)" by (cases ms)
      show ?thesis
        using nowin np Inr ms Cons.IH by (simp add: minimax_exhaustive_loop_Cons)
    qed
  qed
qed

lemma minimax_exhaustive_enough_stack:
  "1 \<le> depth \<Longrightarrow> nat depth \<le> fuel \<Longrightarrow>
     snd (minimax_exhaustive fuel ops st maximizer depth branch_factor poss_moves)
       \<noteq> Inl RecursionError"
proof (induction fuel arbitrary: st maximizer depth branch_factor poss_moves)
  case 0
  then show ?case by simp
next
  case (Suc fuel)
  have IH: "\<forall>st maximizer depth branch_factor poss_moves.
           1 \<le> depth \<and> nat depth \<le> fuel \<longrightarrow>
           snd (minimax_exhaustive fuel ops st maximizer depth branch_factor poss_moves)
             \<noteq> Inl RecursionError"
    using Suc.IH by blast
  have d: "depth = 1 \<or> (2 \<le> depth \<and> nat depth \<le> Suc fuel)"
    using Suc.prems by auto
  show ?case
    unfolding minimax_exhaustive_Suc by (rule minimax_exhaustive_loop_enough_stack [OF IH d])
qed

end
